theory Spec2Isabelle
  imports Main "HOL-Library.Sublist" "HOL-Library.Char_ord"
begin

section \<open>Characters and strings of the Python runtime\<close>

text \<open>
  A Python \<open>str\<close> is modelled as a \<open>string\<close>: a list of 8-bit characters, read as the code
  points 0 to 255. On that range the character classes of \<open>re\<close> (for \<open>str\<close> patterns) and the
  methods \<open>str.isspace\<close>, \<open>str.lower\<close> are the following.
\<close>

definition code :: "char \<Rightarrow> nat" where
  "code c = of_char c"

definition is_space :: "char \<Rightarrow> bool" where
  \<comment> \<open>\<open>\s\<close> and \<open>str.isspace\<close>: 0x09-0x0d, 0x1c-0x20, 0x85, 0xa0\<close>
  "is_space c = (let n = code c in (9 \<le> n \<and> n \<le> 13) \<or> (28 \<le> n \<and> n \<le> 32) \<or> n = 133 \<or> n = 160)"

definition is_digit :: "char \<Rightarrow> bool" where
  \<comment> \<open>\<open>[0-9]\<close>, and \<open>\d\<close> below code point 256\<close>
  "is_digit c = (let n = code c in 48 \<le> n \<and> n \<le> 57)"

definition is_word :: "char \<Rightarrow> bool" where
  \<comment> \<open>\<open>\w\<close>: alphanumeric or underscore\<close>
  "is_word c = (let n = code c in
     (48 \<le> n \<and> n \<le> 57) \<or> (65 \<le> n \<and> n \<le> 90) \<or> n = 95 \<or> (97 \<le> n \<and> n \<le> 122) \<or>
     n = 170 \<or> n = 178 \<or> n = 179 \<or> n = 181 \<or> n = 185 \<or> n = 186 \<or> (188 \<le> n \<and> n \<le> 190) \<or>
     (192 \<le> n \<and> n \<le> 214) \<or> (216 \<le> n \<and> n \<le> 246) \<or> 248 \<le> n)"

definition lower_chr :: "char \<Rightarrow> char" where
  \<comment> \<open>\<open>str.lower\<close> on one character: A-Z and 0xc0-0xde (without 0xd7) move up by 32\<close>
  "lower_chr c = (let n = code c in
     if (65 \<le> n \<and> n \<le> 90) \<or> (192 \<le> n \<and> n \<le> 222 \<and> n \<noteq> 215) then char_of (n + 32) else c)"

definition lower :: "string \<Rightarrow> string" where
  "lower s = map lower_chr s"

definition strip :: "string \<Rightarrow> string" where
  \<comment> \<open>\<open>str.strip()\<close>: leading and trailing whitespace removed\<close>
  "strip s = rev (dropWhile is_space (rev (dropWhile is_space s)))"

fun contains :: "string \<Rightarrow> string \<Rightarrow> bool" where
  \<comment> \<open>\<open>needle in hay\<close>\<close>
  "contains needle [] = (needle = [])"
| "contains needle (c # cs) = (prefix needle (c # cs) \<or> contains needle cs)"

function replace :: "string \<Rightarrow> string \<Rightarrow> string \<Rightarrow> string" where
  \<comment> \<open>\<open>s.replace(old, new)\<close>: every occurrence, found from left to right without overlap\<close>
  "replace old new s =
     (if old = [] then new @ concat (map (\<lambda>c. c # new) s)
      else if prefix old s then new @ replace old new (drop (length old) s)
      else (case s of [] \<Rightarrow> [] | c # cs \<Rightarrow> c # replace old new cs))"
  by pat_completeness auto
termination
  by (relation "measure (\<lambda>(old, new, s). length s)") (auto simp: prefix_def)

definition digits :: "string \<Rightarrow> bool" where
  "digits s = list_all is_digit s"

definition spaces :: "string \<Rightarrow> bool" where
  \<comment> \<open>a non-empty run of whitespace\<close>
  "spaces s = (s \<noteq> [] \<and> list_all is_space s)"

definition py_int :: "string \<Rightarrow> int" where
  \<comment> \<open>\<open>int(s)\<close> for decimal digits after optional leading whitespace\<close>
  "py_int s = foldl (\<lambda>n c. 10 * n + (int (code c) - 48)) 0 (dropWhile is_space s)"

section \<open>Regular expressions\<close>

text \<open>
  The patterns of \<open>extract_from_text\<close> are compiled with \<open>re.VERBOSE | re.IGNORECASE\<close>:
  unescaped whitespace and \<open>#\<close> comments of the pattern are dropped, and a literal character
  matches in either case. Every quantifier of the patterns applies to a single character or
  class and is greedy.
\<close>

datatype atom =
    Chr char        \<comment> \<open>a literal character, matched case-insensitively\<close>
  | Rng char char   \<comment> \<open>\<open>[a-b]\<close> for a range of digits\<close>
  | ClsD            \<comment> \<open>\<open>\d\<close>\<close>
  | ClsS            \<comment> \<open>\<open>\s\<close>\<close>
  | Dot             \<comment> \<open>\<open>.\<close> without DOTALL: anything but a newline\<close>

fun ok :: "atom \<Rightarrow> char \<Rightarrow> bool" where
  "ok (Chr p) c = (lower_chr p = lower_chr c)"
| "ok (Rng lo hi) c = (code lo \<le> code c \<and> code c \<le> code hi)"
| "ok ClsD c = is_digit c"
| "ok ClsS c = is_space c"
| "ok Dot c = (c \<noteq> CHR 0x0A)"

datatype re =
    Eps
  | Atom atom
  | Rep atom nat "nat option"   \<comment> \<open>\<open>a{lo,hi}\<close>, \<open>a{lo,}\<close> when the bound is \<open>None\<close>\<close>
  | Seq re re
  | Alt re re
  | Grp nat re                  \<comment> \<open>capturing group with its number\<close>
  | WordB                       \<comment> \<open>\<open>\b\<close>\<close>

text \<open>
  A matcher state is the text before the current position (reversed), the text from the
  current position on, and the groups captured so far. \<open>m p s\<close> lists the states in which a
  match of \<open>p\<close> from \<open>s\<close> can end, in the order in which the backtracking matcher of \<open>re\<close>
  tries them: the left alternative first, the longest repetition first.
\<close>

type_synonym caps = "nat \<rightharpoonup> string"
type_synonym mstate = "string \<times> string \<times> caps"

definition at_boundary :: "string \<Rightarrow> string \<Rightarrow> bool" where
  "at_boundary b r =
     ((case b of [] \<Rightarrow> False | c # _ \<Rightarrow> is_word c) \<noteq> (case r of [] \<Rightarrow> False | c # _ \<Rightarrow> is_word c))"

definition consumed :: "string \<Rightarrow> string \<Rightarrow> string" where
  \<comment> \<open>the text between the position with prefix \<open>b\<close> and the later one with prefix \<open>b'\<close>\<close>
  "consumed b b' = rev (take (length b' - length b) b')"

primrec m :: "re \<Rightarrow> mstate \<Rightarrow> mstate list" where
  "m Eps = (\<lambda>s. [s])"
| "m (Atom a) = (\<lambda>(b, r, g). case r of [] \<Rightarrow> [] | c # cs \<Rightarrow> if ok a c then [(c # b, cs, g)] else [])"
| "m (Rep a lo hi) = (\<lambda>(b, r, g).
     let n = length (takeWhile (ok a) r);
         top = (case hi of None \<Rightarrow> n | Some h \<Rightarrow> min h n)
     in map (\<lambda>k. (rev (take k r) @ b, drop k r, g)) (rev [lo..<Suc top]))"
| "m (Seq x y) = (\<lambda>s. concat (map (m y) (m x s)))"
| "m (Alt x y) = (\<lambda>s. m x s @ m y s)"
| "m (Grp i x) = (\<lambda>(b, r, g). map (\<lambda>(b', r', g'). (b', r', g'(i \<mapsto> consumed b b'))) (m x (b, r, g)))"
| "m WordB = (\<lambda>(b, r, g). if at_boundary b r then [(b, r, g)] else [])"

definition den :: "re \<Rightarrow> string \<Rightarrow> string \<Rightarrow> string \<Rightarrow> caps \<Rightarrow> caps \<Rightarrow> bool" where
  \<comment> \<open>\<open>p\<close> can match the text \<open>w\<close> between \<open>b\<close> (reversed) and \<open>r'\<close>, turning the groups \<open>g\<close> into \<open>g'\<close>\<close>
  "den p b w r' g g' \<longleftrightarrow> (rev w @ b, r', g') \<in> set (m p (b, w @ r', g))"

record pymatch =
  whole :: string   \<comment> \<open>\<open>match.group()\<close>\<close>
  groups :: caps    \<comment> \<open>\<open>match.group(i)\<close> for \<open>i > 0\<close>; \<open>None\<close> for a group that took no part\<close>

fun search_from :: "re \<Rightarrow> string \<Rightarrow> string \<Rightarrow> pymatch option" where
  "search_from p b [] =
     (case m p (b, [], Map.empty) of
        [] \<Rightarrow> None
      | (b', r', g) # _ \<Rightarrow> Some \<lparr>whole = consumed b b', groups = g\<rparr>)"
| "search_from p b (c # cs) =
     (case m p (b, c # cs, Map.empty) of
        [] \<Rightarrow> search_from p (c # b) cs
      | (b', r', g) # _ \<Rightarrow> Some \<lparr>whole = consumed b b', groups = g\<rparr>)"

definition re_search :: "re \<Rightarrow> string \<Rightarrow> pymatch option" where
  \<comment> \<open>\<open>re.search\<close>: the first match at the leftmost position that has one\<close>
  "re_search p text = search_from p [] text"

fun seqs :: "re list \<Rightarrow> re" where
  "seqs [] = Eps"
| "seqs [x] = x"
| "seqs (x # xs) = Seq x (seqs xs)"

definition lit :: "string \<Rightarrow> re" where
  "lit s = seqs (map (\<lambda>c. Atom (Chr c)) s)"

definition tax_court_reports_regex :: re where
  \<comment> \<open>\<open>([0-9]{1,4})\s{1,}UNITED\ STATES\ TAX\ COURT\ REPORTS?\s{1,}\((\d{1,4})\)\<close>\<close>
  "tax_court_reports_regex = seqs
     [Grp 1 (Rep (Rng CHR ''0'' CHR ''9'') 1 (Some 4)), Rep ClsS 1 None,
      lit ''UNITED STATES TAX COURT REPORT'', Rep (Chr CHR ''S'') 0 (Some 1), Rep ClsS 1 None,
      lit ''('', Grp 2 (Rep ClsD 1 (Some 4)), lit '')'']"

definition tc_prefix :: "re list" where
  \<comment> \<open>\<open>T\.\ ?C\.\<close>\<close>
  "tc_prefix = [lit ''T.'', Rep (Chr CHR '' '') 0 (Some 1), lit ''C.'']"

definition memo_reporter :: re where
  \<comment> \<open>\<open>((Memo\.?)|(Summary\ Opinion))\<close>, groups 3, 4 and 5\<close>
  "memo_reporter =
     Grp 3 (Alt (Grp 4 (Seq (lit ''Memo'') (Rep (Chr CHR ''.'') 0 (Some 1))))
                (Grp 5 (lit ''Summary Opinion'')))"

definition memo_form :: re where
  \<comment> \<open>\<open>T\.\ ?C\.\s((Memo\.?)|(Summary\ Opinion))\s{1,}([0-9]{4}).([0-9]{1,3})\b\<close>\<close>
  "memo_form = seqs
     (tc_prefix @
      [Atom ClsS, memo_reporter, Rep ClsS 1 None,
       Grp 6 (Rep (Rng CHR ''0'' CHR ''9'') 4 (Some 4)),
       Atom Dot,
       Grp 7 (Rep (Rng CHR ''0'' CHR ''9'') 1 (Some 3)), WordB])"

definition numbered_form :: re where
  \<comment> \<open>\<open>([0-9]{1,4})\s{1,}(T\.\ ?C\.\ No\.)\s{1,}(\d{1,4})\<close>\<close>
  "numbered_form = seqs
     [Grp 8 (Rep (Rng CHR ''0'' CHR ''9'') 1 (Some 4)), Rep ClsS 1 None,
      Grp 9 (seqs (tc_prefix @ [lit '' No.''])),
      Rep ClsS 1 None,
      Grp 10 (Rep ClsD 1 (Some 4))]"

definition tax_court_alt_regex :: re where
  \<comment> \<open>group 1 is the whole alternation, group 2 its first branch\<close>
  "tax_court_alt_regex = Grp 1 (Alt (Grp 2 memo_form) numbered_form)"

section \<open>\<open>Site.extract_from_text\<close>\<close>

datatype 't pyval = PyStr string | PyNone | Ext 't

definition group :: "pymatch \<Rightarrow> nat \<Rightarrow> 't pyval" where
  "group mt i = (case groups mt i of None \<Rightarrow> PyNone | Some s \<Rightarrow> PyStr s)"

record 't metadata =
  Citation :: "string \<rightharpoonup> 't pyval"
  OpinionCluster :: "string \<rightharpoonup> 't pyval"

definition extract_from_text :: "'t \<Rightarrow> string \<Rightarrow> 't metadata" where
  \<comment> \<open>\<open>specialty\<close> is the value of \<open>citation_types["SPECIALTY"]\<close>\<close>
  "extract_from_text specialty scraped_text =
     (let metadata = \<lparr>Citation = [''type'' \<mapsto> Ext specialty],
                      OpinionCluster = [''precedential_status'' \<mapsto> PyStr '''']\<rparr>
      in case re_search tax_court_reports_regex scraped_text of
           Some match \<Rightarrow>
             \<lparr>Citation = (Citation metadata)
                 (''volume'' \<mapsto> group match 1, ''page'' \<mapsto> group match 2, ''reporter'' \<mapsto> PyStr ''T.C.''),
              OpinionCluster = (OpinionCluster metadata)(''precedential_status'' \<mapsto> PyStr ''Published'')\<rparr>
         | None \<Rightarrow>
             (case re_search tax_court_alt_regex scraped_text of
                None \<Rightarrow> metadata
              | Some match \<Rightarrow>
                  if contains ''No.'' (whole match) then
                    \<lparr>Citation = (Citation metadata)
                        (''reporter'' \<mapsto> PyStr ''T.C.'', ''volume'' \<mapsto> group match 8, ''page'' \<mapsto> group match 10),
                     OpinionCluster = (OpinionCluster metadata)(''precedential_status'' \<mapsto> PyStr ''Published'')\<rparr>
                  else
                    (let citation =
                       (if contains ''Memo'' (whole match) then (Citation metadata)(''reporter'' \<mapsto> PyStr ''T.C. Memo.'')
                        else if contains ''Summary'' (whole match) then (Citation metadata)(''reporter'' \<mapsto> PyStr ''T.C. Summary Opinion'')
                        else Citation metadata)
                     in \<lparr>Citation = citation(''volume'' \<mapsto> group match 6, ''page'' \<mapsto> group match 7),
                         OpinionCluster = (OpinionCluster metadata)(''precedential_status'' \<mapsto> PyStr ''Unpublished'')\<rparr>)))"

section \<open>Dates\<close>

text \<open>
  A \<open>datetime.date\<close> is modelled by its proleptic Gregorian ordinal (\<open>date.toordinal()\<close>),
  so that adding a \<open>timedelta\<close> of days is integer addition. The conversion from year,
  month and day follows \<open>datetime._ymd2ord\<close>.
\<close>

datatype error = ValueError | TimeoutException

type_synonym date = int

definition is_leap :: "int \<Rightarrow> bool" where
  "is_leap y = (y mod 4 = 0 \<and> (y mod 100 \<noteq> 0 \<or> y mod 400 = 0))"

definition days_before_year :: "int \<Rightarrow> int" where
  "days_before_year year = (let y = year - 1 in y * 365 + y div 4 - y div 100 + y div 400)"

definition days_in_month :: "int \<Rightarrow> int \<Rightarrow> int" where
  "days_in_month year month =
     (if month = 2 \<and> is_leap year then 29
      else [31, 28, 31, 30, 31, 30, 31, 31, 30, 31, 30, 31] ! nat (month - 1))"

definition days_before_month :: "int \<Rightarrow> int \<Rightarrow> int" where
  "days_before_month year month =
     [0, 31, 59, 90, 120, 151, 181, 212, 243, 273, 304, 334] ! nat (month - 1)
       + (if month > 2 \<and> is_leap year then 1 else 0)"

definition ymd2ord :: "int \<Rightarrow> int \<Rightarrow> int \<Rightarrow> date" where
  "ymd2ord year month day = days_before_year year + days_before_month year month + day"

definition mk_date :: "int \<Rightarrow> int \<Rightarrow> int \<Rightarrow> error + date" where
  \<comment> \<open>\<open>date(year, month, day)\<close>, which raises ValueError outside the calendar\<close>
  "mk_date year month day =
     (if 1 \<le> year \<and> year \<le> 9999 \<and> 1 \<le> month \<and> month \<le> 12 \<and>
         1 \<le> day \<and> day \<le> days_in_month year month
      then Inr (ymd2ord year month day) else Inl ValueError)"

definition strptime_regex :: re where
  \<comment> \<open>the pattern \<open>_strptime\<close> builds for \<open>%m/%d/%Y\<close>:
      \<open>(?P<m>1[0-2]|0[1-9]|[1-9])/(?P<d>3[0-1]|[1-2]\d|0[1-9]|[1-9]| [1-9])/(?P<Y>\d\d\d\d)\<close>,
      with the groups m, d, Y numbered 1, 2, 3\<close>
  "strptime_regex = seqs
     [Grp 1 (Alt (Seq (lit ''1'') (Atom (Rng CHR ''0'' CHR ''2'')))
            (Alt (Seq (lit ''0'') (Atom (Rng CHR ''1'' CHR ''9'')))
                 (Atom (Rng CHR ''1'' CHR ''9'')))),
      lit ''/'',
      Grp 2 (Alt (Seq (lit ''3'') (Atom (Rng CHR ''0'' CHR ''1'')))
            (Alt (Seq (Atom (Rng CHR ''1'' CHR ''2'')) (Atom ClsD))
            (Alt (Seq (lit ''0'') (Atom (Rng CHR ''1'' CHR ''9'')))
            (Alt (Atom (Rng CHR ''1'' CHR ''9''))
                 (Seq (lit '' '') (Atom (Rng CHR ''1'' CHR ''9''))))))),
      lit ''/'',
      Grp 3 (seqs [Atom ClsD, Atom ClsD, Atom ClsD, Atom ClsD])]"

definition strptime :: "string \<Rightarrow> error + date" where
  \<comment> \<open>\<open>datetime.strptime(s, "%m/%d/%Y").date()\<close>: the pattern is matched at the start of
      \<open>s\<close> and must use all of it; the three numbers must then name a day of the calendar\<close>
  "strptime s =
     (case m strptime_regex ([], s, Map.empty) of
        [] \<Rightarrow> Inl ValueError
      | (b', r', g) # _ \<Rightarrow>
          if r' \<noteq> [] then Inl ValueError
          else (case (g 1, g 2, g 3) of
                  (Some mo, Some d, Some y) \<Rightarrow> mk_date (py_int y) (py_int mo) (py_int d)
                | _ \<Rightarrow> Inl ValueError))"

function rrule_weekly :: "date \<Rightarrow> date \<Rightarrow> date list" where
  \<comment> \<open>\<open>rrule(WEEKLY, dtstart=d, until=u)\<close>: \<open>d\<close>, \<open>d\<close> + 7 days, ... up to and including \<open>u\<close>\<close>
  "rrule_weekly d until = (if until < d then [] else d # rrule_weekly (d + 7) until)"
  by pat_completeness auto
termination
  by (relation "measure (\<lambda>(d, until). nat (until - d + 1))") auto

definition back_scrape_iterable :: "date list" where
  "back_scrape_iterable = rrule_weekly (ymd2ord 1995 9 25) (ymd2ord 2018 11 13)"

section \<open>The result page and the field getters\<close>

text \<open>
  The parsed page is a tree of elements (tag, attributes, children) and text nodes. An
  XPath query returns its nodes in document order, each once.
\<close>

datatype node =
    Element string "string \<rightharpoonup> string" "node list"
  | Text string

fun text_content :: "node \<Rightarrow> string" where
  "text_content (Text s) = s"
| "text_content (Element tag attrs kids) = concat (map text_content kids)"

definition is_row :: "string \<Rightarrow> (string \<rightharpoonup> string) \<Rightarrow> bool" where
  \<comment> \<open>\<open>tr[@class="ResultsOddRow" or @class="ResultsEvenRow"]\<close>\<close>
  "is_row tag attrs =
     (tag = ''tr'' \<and> (attrs ''class'' = Some ''ResultsOddRow'' \<or> attrs ''class'' = Some ''ResultsEvenRow''))"

fun is_td :: "node \<Rightarrow> bool" where
  "is_td (Element tag attrs kids) = (tag = ''td'')"
| "is_td (Text s) = False"

text \<open>
  \<open>base_path + "//td[k]"\<close> selects every \<open>td\<close> element below a result row that is the
  \<open>k\<close>-th \<open>td\<close> child of its parent. \<open>inside\<close> tells whether a result row lies on the path from
  the root; \<open>n\<close> counts the \<open>td\<close> children already passed.
\<close>

fun xpath_td :: "nat \<Rightarrow> bool \<Rightarrow> node \<Rightarrow> node list"
  and xpath_td_kids :: "nat \<Rightarrow> bool \<Rightarrow> nat \<Rightarrow> node list \<Rightarrow> node list" where
  "xpath_td k inside (Text s) = []"
| "xpath_td k inside (Element tag attrs kids) = xpath_td_kids k (inside \<or> is_row tag attrs) 0 kids"
| "xpath_td_kids k inside n [] = []"
| "xpath_td_kids k inside n (c # cs) =
     (if is_td c
      then (if inside \<and> Suc n = k then [c] else []) @ xpath_td k inside c @ xpath_td_kids k inside (Suc n) cs
      else xpath_td k inside c @ xpath_td_kids k inside n cs)"

fun xpath_href :: "bool \<Rightarrow> node \<Rightarrow> string list" where
  \<comment> \<open>\<open>base_path + "//@href"\<close>: the \<open>href\<close> attributes of the result rows and of all below them\<close>
  "xpath_href inside (Text s) = []"
| "xpath_href inside (Element tag attrs kids) =
     (if inside \<or> is_row tag attrs then (case attrs ''href'' of None \<Rightarrow> [] | Some h \<Rightarrow> [h]) else [])
       @ concat (map (xpath_href (inside \<or> is_row tag attrs)) kids)"

fun xpath_rows :: "node \<Rightarrow> node list" where
  \<comment> \<open>\<open>base_path\<close>: the result rows themselves\<close>
  "xpath_rows (Text s) = []"
| "xpath_rows (Element tag attrs kids) =
     (if is_row tag attrs then [Element tag attrs kids] else []) @ concat (map xpath_rows kids)"

definition fix_href :: "string \<Rightarrow> string" where
  "fix_href href =
     (if contains ''?ID'' href then href
      else replace ''OpinionSearch.aspx#'' ''OpinionViewer.aspx?ID='' href)"

definition get_download_urls :: "node \<Rightarrow> string list" where
  "get_download_urls html = map fix_href (xpath_href False html)"

definition get_case_names :: "node \<Rightarrow> string list" where
  "get_case_names html =
     map (\<lambda>td. strip (text_content td) @ '' v. Commissioner'') (xpath_td 1 False html)"

definition precedential_status :: "string \<Rightarrow> string" where
  \<comment> \<open>the body of the loop of \<open>_get_precedential_statuses\<close>, on the text of one cell\<close>
  "precedential_status text =
     (let status = lower (strip text)
      in if contains ''opinion'' status then ''Published''
         else if contains ''memorandum'' status then ''Unpublished''
         else if contains ''summary'' status then ''Unpublished''
         else ''Unknown'')"

definition get_precedential_statuses :: "node \<Rightarrow> string list" where
  "get_precedential_statuses html =
     map (\<lambda>td. precedential_status (text_content td)) (xpath_td 2 False html)"

fun parse_dates :: "string list \<Rightarrow> error + date list" where
  \<comment> \<open>the loop of \<open>_get_case_dates\<close>: the first date that does not parse raises\<close>
  "parse_dates [] = Inr []"
| "parse_dates (s # ss) =
     (case strptime s of
        Inl e \<Rightarrow> Inl e
      | Inr d \<Rightarrow> (case parse_dates ss of Inl e \<Rightarrow> Inl e | Inr ds \<Rightarrow> Inr (d # ds)))"

definition get_case_dates :: "node \<Rightarrow> error + date list" where
  "get_case_dates html = parse_dates (map (\<lambda>td. strip (text_content td)) (xpath_td 3 False html))"

text \<open>
  A result row as the site renders it: a \<open>tr\<close> with one of the two classes whose children
  hold three \<open>td\<close> cells, with no table cell or row nested below, and with one \<open>href\<close>
  attribute in the whole row.
\<close>

fun no_cells :: "node \<Rightarrow> bool" where
  \<comment> \<open>neither the node nor anything below it is a \<open>td\<close> or \<open>tr\<close> element\<close>
  "no_cells (Text s) = True"
| "no_cells (Element tag attrs kids) = (tag \<noteq> ''td'' \<and> tag \<noteq> ''tr'' \<and> list_all no_cells kids)"

fun plain_cell :: "node \<Rightarrow> bool" where
  \<comment> \<open>a \<open>td\<close> with no cells below it, or a node without any cell\<close>
  "plain_cell (Text s) = True"
| "plain_cell (Element tag attrs kids) = (tag \<noteq> ''tr'' \<and> list_all no_cells kids)"

fun well_formed_row :: "node \<Rightarrow> bool" where
  "well_formed_row (Text s) = False"
| "well_formed_row (Element tag attrs kids) =
     (is_row tag attrs \<and> list_all plain_cell kids \<and> length (filter is_td kids) = 3 \<and>
      length (xpath_href True (Element tag attrs kids)) = 1)"

definition well_formed :: "node \<Rightarrow> bool" where
  "well_formed html = list_all well_formed_row (xpath_rows html)"

fun cell :: "nat \<Rightarrow> node \<Rightarrow> node" where
  \<comment> \<open>the \<open>k\<close>-th column of a row (counted from 0)\<close>
  "cell k (Element tag attrs kids) = filter is_td kids ! k"
| "cell k (Text s) = Text s"

definition anchor :: "node \<Rightarrow> string" where
  \<comment> \<open>the first \<open>href\<close> of a row\<close>
  "anchor row = hd (xpath_href True row)"

section \<open>The backscraper\<close>

text \<open>
  The state of a \<open>Site\<close> object, with the requests made to the search form so far. The
  browser session of \<open>_download\<close> is a parameter: given the start and end date typed into
  the form it returns the parsed page, \<open>None\<close>, or raises.
\<close>

record site =
  backwards_days :: int
  case_date :: date
  html :: "node option"
  status :: "int option"
  fetched :: "(date \<times> date) list"

type_synonym session = "date \<times> date \<Rightarrow> error + node option"

definition download :: "session \<Rightarrow> site \<Rightarrow> (error + node option) \<times> site" where
  \<comment> \<open>\<open>_download\<close>: the form is filled with \<open>case_date - backwards_days\<close> and \<open>case_date\<close>\<close>
  "download session s =
     (let dates = (case_date s - backwards_days s, case_date s)
      in (session dates, s\<lparr>fetched := fetched s @ [dates]\<rparr>))"

definition download_backwards :: "session \<Rightarrow> date \<Rightarrow> site \<Rightarrow> error option \<times> site" where
  \<comment> \<open>\<open>_download_backwards\<close>; the first component is the exception raised, if any\<close>
  "download_backwards session d s =
     (let s1 = s\<lparr>backwards_days := 7, case_date := d\<rparr>;
          (result, s2) = download session s1
      in case result of
           Inl e \<Rightarrow> (Some e, s2)
         | Inr page \<Rightarrow>
             (None, if page \<noteq> None then s2\<lparr>html := page, status := Some 200\<rparr>
                    else s2\<lparr>html := page\<rparr>))"

definition parse_download_step :: "session \<Rightarrow> site \<Rightarrow> error option \<times> site" where
  \<comment> \<open>Modelled from the spec: \<open>AbstractSite.parse\<close>, the caller of \<open>_download\<close> in the
      surrounding framework, is not among the sources. The spec and the comment in
      \<open>_download_backwards\<close> say that it runs the download only when no status has been
      set: "completion state makes the second call a no-op".\<close>
  "parse_download_step session s =
     (case status s of
        Some c \<Rightarrow> (None, s)
      | None \<Rightarrow>
          (let (result, s1) = download session s
           in case result of
                Inl e \<Rightarrow> (Some e, s1)
              | Inr page \<Rightarrow> (None, s1\<lparr>html := page\<rparr>)))"

definition new_site :: "date \<Rightarrow> site" where
  \<comment> \<open>the object after \<open>__init__\<close> on the day \<open>today\<close>: nothing downloaded, no status\<close>
  "new_site today = \<lparr>backwards_days = 14, case_date = today, html = None, status = None, fetched = []\<rparr>"

definition sample_session :: session where
  \<comment> \<open>a search form that answers every request with a page\<close>
  "sample_session dates = Inr (Some (Element ''html'' Map.empty [Text ''results'']))"

definition date_parses :: "node \<Rightarrow> bool" where
  \<comment> \<open>the third column of a row holds a date that \<open>strptime\<close> accepts\<close>
  "date_parses row = (case strptime (strip (text_content (cell 2 row))) of Inl e \<Rightarrow> False | Inr d \<Rightarrow> True)"

definition sample_row :: "string \<Rightarrow> string \<Rightarrow> string \<Rightarrow> string \<Rightarrow> string \<Rightarrow> node" where
  \<comment> \<open>a row of the result table: class, petitioner, kind of opinion with its link, date\<close>
  "sample_row cls name kind href filed =
     Element ''tr'' [''class'' \<mapsto> cls]
       [Element ''td'' Map.empty [Text name], Text '' '',
        Element ''td'' Map.empty [Element ''a'' [''href'' \<mapsto> href] [Text kind]], Text '' '',
        Element ''td'' Map.empty [Text filed]]"

definition sample_page :: node where
  "sample_page =
     Element ''html'' Map.empty
       [Element ''table'' Map.empty
          [Element ''tr'' Map.empty [Element ''th'' Map.empty [Text ''Petitioner'']],
           sample_row ''ResultsOddRow'' '' Smith '' ''Opinion''
             ''https://www.ustaxcourt.gov/UstcInOp/OpinionViewer.aspx?ID=11815'' ''01/05/2015'',
           sample_row ''ResultsEvenRow'' ''Jones'' ''Memorandum Opinion''
             ''https://www.ustaxcourt.gov/UstcInOp/OpinionSearch.aspx#11813'' ''1/6/2015'']]"

definition bad_date_page :: node where
  \<comment> \<open>one result row whose third column is not a date\<close>
  "bad_date_page =
     Element ''html'' Map.empty
       [Element ''table'' Map.empty
          [sample_row ''ResultsOddRow'' ''Smith'' ''Opinion''
             ''https://www.ustaxcourt.gov/UstcInOp/OpinionViewer.aspx?ID=11815'' ''n/a'']]"

section \<open>The matcher: the texts a pattern accepts\<close>

lemma code_char_of: "n < 256 \<Longrightarrow> code (char_of n) = n"
  by (simp add: code_def)

lemma code_inj: "code c = code d \<Longrightarrow> c = d"
  by (simp add: code_def)

lemma lower_chr_code:
  "code (lower_chr c) =
     (if (65 \<le> code c \<and> code c \<le> 90) \<or> (192 \<le> code c \<and> code c \<le> 222 \<and> code c \<noteq> 215)
      then code c + 32 else code c)"
  by (auto simp: lower_chr_def Let_def code_char_of)

lemma lower_chr_idem: "lower_chr (lower_chr c) = lower_chr c"
  by (rule code_inj) (auto simp: lower_chr_code)

lemma ok_Chr_low: "code p < 65 \<Longrightarrow> ok (Chr p) c \<longleftrightarrow> c = p"
proof
  assume p: "code p < 65" and "ok (Chr p) c"
  then have "code (lower_chr p) = code (lower_chr c)" by simp
  with p have "code c = code p" by (auto simp: lower_chr_code split: if_splits)
  then show "c = p" by (rule code_inj)
qed simp

lemma in_m_Eps: "s' \<in> set (m Eps s) \<longleftrightarrow> s' = s"
  by auto

lemma in_m_Atom:
  "(b', r', g') \<in> set (m (Atom a) (b, r, g)) \<longleftrightarrow> (\<exists>c. r = c # r' \<and> ok a c \<and> b' = c # b \<and> g' = g)"
  by (auto split: list.splits)

lemma in_m_Seq: "s'' \<in> set (m (Seq x y) s) \<longleftrightarrow> (\<exists>s'. s' \<in> set (m x s) \<and> s'' \<in> set (m y s'))"
  by auto

lemma in_m_Alt: "s' \<in> set (m (Alt x y) s) \<longleftrightarrow> s' \<in> set (m x s) \<or> s' \<in> set (m y s)"
  by auto

lemma in_m_Grp:
  "(b', r', g') \<in> set (m (Grp i x) (b, r, g)) \<longleftrightarrow>
     (\<exists>g0. (b', r', g0) \<in> set (m x (b, r, g)) \<and> g' = g0(i \<mapsto> consumed b b'))"
  by (auto simp: image_iff) force

lemma in_m_WordB:
  "(b', r', g') \<in> set (m WordB (b, r, g)) \<longleftrightarrow> at_boundary b r \<and> b' = b \<and> r' = r \<and> g' = g"
  by auto

lemma takeWhile_all_prefix: "\<forall>c\<in>set w. P c \<Longrightarrow> length w \<le> length (takeWhile P (w @ r))"
  by (induction w) auto

lemma take_takeWhile_all: "k \<le> length (takeWhile P r) \<Longrightarrow> \<forall>c\<in>set (take k r). P c"
proof (induction r arbitrary: k)
  case Nil
  then show ?case by simp
next
  case (Cons x r)
  then show ?case by (cases k) (auto split: if_splits)
qed

lemma in_m_Rep:
  "(b', r', g') \<in> set (m (Rep a lo hi) (b, r, g)) \<longleftrightarrow>
     (\<exists>w. r = w @ r' \<and> b' = rev w @ b \<and> g' = g \<and> (\<forall>c\<in>set w. ok a c) \<and> lo \<le> length w \<and>
          (\<forall>h. hi = Some h \<longrightarrow> length w \<le> h))"
  (is "?L \<longleftrightarrow> ?R")
proof -
  define top where "top = (case hi of None \<Rightarrow> length (takeWhile (ok a) r)
                           | Some h \<Rightarrow> min h (length (takeWhile (ok a) r)))"
  have unfold: "m (Rep a lo hi) (b, r, g) = map (\<lambda>k. (rev (take k r) @ b, drop k r, g)) (rev [lo..<Suc top])"
    by (simp add: top_def Let_def)
  show ?thesis
  proof
    assume ?L
    then obtain k where k: "lo \<le> k" "k \<le> top"
      and eq: "b' = rev (take k r) @ b" "r' = drop k r" "g' = g"
      unfolding unfold by auto
    from k(2) have k2: "k \<le> length (takeWhile (ok a) r)" and k3: "\<forall>h. hi = Some h \<longrightarrow> k \<le> h"
      by (auto simp: top_def split: option.splits)
    have "k \<le> length r" using k2 length_takeWhile_le [of "ok a" r] by linarith
    then have "length (take k r) = k" by simp
    with k k3 eq take_takeWhile_all [OF k2] show ?R
      by (intro exI [of _ "take k r"]) auto
  next
    assume ?R
    then obtain w where w: "r = w @ r'" "b' = rev w @ b" "g' = g" "\<forall>c\<in>set w. ok a c" "lo \<le> length w"
      "\<forall>h. hi = Some h \<longrightarrow> length w \<le> h" by blast
    have "length w \<le> length (takeWhile (ok a) r)"
      using takeWhile_all_prefix [OF w(4)] w(1) by simp
    with w(6) have "length w \<le> top" by (auto simp: top_def split: option.splits)
    with w show ?L
      unfolding unfold by (auto simp: image_iff intro!: bexI [of _ "length w"])
  qed
qed

lemma m_seqs_Cons: "m (seqs (x # xs)) s = concat (map (m (seqs xs)) (m x s))"
  by (cases xs) simp_all

lemma in_m_seqs_Cons:
  "s'' \<in> set (m (seqs (x # xs)) s) \<longleftrightarrow> (\<exists>s'. s' \<in> set (m x s) \<and> s'' \<in> set (m (seqs xs) s'))"
  by (auto simp: m_seqs_Cons)

lemma in_m_seqs_Nil: "s' \<in> set (m (seqs []) s) \<longleftrightarrow> s' = s"
  by simp

lemma in_m_lit:
  "(b', r', g') \<in> set (m (lit s) (b, r, g)) \<longleftrightarrow>
     (\<exists>w. r = w @ r' \<and> b' = rev w @ b \<and> g' = g \<and> lower w = lower s)"
proof (induction s arbitrary: b r)
  case Nil
  then show ?case by (auto simp: lit_def lower_def)
next
  case (Cons c s)
  have "(b', r', g') \<in> set (m (lit (c # s)) (b, r, g)) \<longleftrightarrow>
        (\<exists>d r1. r = d # r1 \<and> lower_chr c = lower_chr d \<and> (b', r', g') \<in> set (m (lit s) (d # b, r1, g)))"
    unfolding lit_def list.map in_m_seqs_Cons by (auto simp: in_m_Atom)
  also have "\<dots> \<longleftrightarrow> (\<exists>d r1. r = d # r1 \<and> lower_chr c = lower_chr d \<and>
        (\<exists>w. r1 = w @ r' \<and> b' = rev w @ d # b \<and> g' = g \<and> lower w = lower s))"
    unfolding Cons.IH ..
  also have "\<dots> \<longleftrightarrow> (\<exists>w. r = w @ r' \<and> b' = rev w @ b \<and> g' = g \<and> lower w = lower (c # s))"
  proof
    assume "\<exists>d r1. r = d # r1 \<and> lower_chr c = lower_chr d \<and>
        (\<exists>w. r1 = w @ r' \<and> b' = rev w @ d # b \<and> g' = g \<and> lower w = lower s)"
    then obtain d r1 w where "r = d # r1" "lower_chr c = lower_chr d" "r1 = w @ r'"
      "b' = rev w @ d # b" "g' = g" "lower w = lower s" by blast
    then show "\<exists>w. r = w @ r' \<and> b' = rev w @ b \<and> g' = g \<and> lower w = lower (c # s)"
      by (intro exI [of _ "d # w"]) (simp add: lower_def)
  next
    assume "\<exists>w. r = w @ r' \<and> b' = rev w @ b \<and> g' = g \<and> lower w = lower (c # s)"
    then obtain w where w: "r = w @ r'" "b' = rev w @ b" "g' = g" "lower w = lower (c # s)" by blast
    then obtain d w1 where "w = d # w1" by (cases w) (auto simp: lower_def)
    with w show "\<exists>d r1. r = d # r1 \<and> lower_chr c = lower_chr d \<and>
        (\<exists>w. r1 = w @ r' \<and> b' = rev w @ d # b \<and> g' = g \<and> lower w = lower s)"
      by (auto simp: lower_def)
  qed
  finally show ?case .
qed

lemma m_advance:
  "(b', r', g') \<in> set (m p (b, r, g)) \<Longrightarrow> \<exists>w. r = w @ r' \<and> b' = rev w @ b"
proof (induction p arbitrary: b r g b' r' g')
  case Eps
  then show ?case by simp
next
  case (Atom a)
  then show ?case by (auto simp: in_m_Atom)
next
  case (Rep a lo hi)
  then show ?case unfolding in_m_Rep by blast
next
  case (Seq x y)
  from Seq.prems obtain b1 r1 g1 where 1: "(b1, r1, g1) \<in> set (m x (b, r, g))"
    and 2: "(b', r', g') \<in> set (m y (b1, r1, g1))" unfolding in_m_Seq by auto
  from Seq.IH(1) [OF 1] obtain w1 where "r = w1 @ r1" "b1 = rev w1 @ b" by blast
  moreover from Seq.IH(2) [OF 2] obtain w2 where "r1 = w2 @ r'" "b' = rev w2 @ b1" by blast
  ultimately show ?case by (intro exI [of _ "w1 @ w2"]) simp
next
  case (Alt x y)
  then show ?case unfolding in_m_Alt by blast
next
  case (Grp i x)
  then show ?case unfolding in_m_Grp by blast
next
  case WordB
  then show ?case by (auto simp: in_m_WordB)
qed

lemma consumed_rev: "consumed b (rev w @ b) = w"
  by (simp add: consumed_def)


lemma in_m_den:
  "(b', r', g') \<in> set (m p (b, r, g)) \<longleftrightarrow> (\<exists>w. r = w @ r' \<and> b' = rev w @ b \<and> den p b w r' g g')"
  using m_advance [of b' r' g' p b r g] by (auto simp: den_def)

lemma den_Eps: "den Eps b w r' g g' \<longleftrightarrow> w = [] \<and> g' = g"
  by (auto simp: den_def)

lemma den_Atom: "den (Atom a) b w r' g g' \<longleftrightarrow> (\<exists>c. w = [c] \<and> ok a c \<and> g' = g)"
  unfolding den_def in_m_Atom by auto

lemma den_Rep:
  "den (Rep a lo hi) b w r' g g' \<longleftrightarrow>
     list_all (ok a) w \<and> lo \<le> length w \<and> (\<forall>h. hi = Some h \<longrightarrow> length w \<le> h) \<and> g' = g"
  unfolding den_def in_m_Rep by (auto simp: list_all_iff)

lemma den_lit: "den (lit s) b w r' g g' \<longleftrightarrow> lower w = lower s \<and> g' = g"
  unfolding den_def in_m_lit by auto

lemma den_Alt: "den (Alt x y) b w r' g g' \<longleftrightarrow> den x b w r' g g' \<or> den y b w r' g g'"
  by (auto simp: den_def)

lemma den_WordB: "den WordB b w r' g g' \<longleftrightarrow> w = [] \<and> at_boundary b r' \<and> g' = g"
  unfolding den_def in_m_WordB by auto

lemma den_Grp: "den (Grp i x) b w r' g g' \<longleftrightarrow> (\<exists>g0. den x b w r' g g0 \<and> g' = g0(i \<mapsto> w))"
  unfolding den_def in_m_Grp by (simp add: consumed_rev)

lemma den_Seq:
  "den (Seq x y) b w r' g g' \<longleftrightarrow>
     (\<exists>w1 w2 g1. w = w1 @ w2 \<and> den x b w1 (w2 @ r') g g1 \<and> den y (rev w1 @ b) w2 r' g1 g')"
  (is "?L \<longleftrightarrow> ?R")
proof
  assume ?L
  then obtain b1 r1 g1 where 1: "(b1, r1, g1) \<in> set (m x (b, w @ r', g))"
    and 2: "(rev w @ b, r', g') \<in> set (m y (b1, r1, g1))"
    unfolding den_def in_m_Seq by auto
  from 1 obtain w1 where w1: "w @ r' = w1 @ r1" "b1 = rev w1 @ b" "den x b w1 r1 g g1"
    unfolding in_m_den by blast
  from 2 obtain w2 where w2: "r1 = w2 @ r'" "rev w @ b = rev w2 @ b1" "den y b1 w2 r' g1 g'"
    unfolding in_m_den by blast
  from w1(1) w2(1) have "w = w1 @ w2" by simp
  with w1 w2 show ?R by blast
next
  assume ?R
  then obtain w1 w2 g1 where "w = w1 @ w2" "den x b w1 (w2 @ r') g g1" "den y (rev w1 @ b) w2 r' g1 g'"
    by blast
  then show ?L
    unfolding den_def in_m_Seq by (intro exI [of _ "(rev w1 @ b, w2 @ r', g1)"]) simp
qed

lemma den_seqs_Cons:
  "den (seqs (x # xs)) b w r' g g' \<longleftrightarrow>
     (\<exists>w1 w2 g1. w = w1 @ w2 \<and> den x b w1 (w2 @ r') g g1 \<and> den (seqs xs) (rev w1 @ b) w2 r' g1 g')"
proof (cases xs)
  case Nil
  then show ?thesis by (auto simp: den_Eps)
next
  case (Cons y ys)
  then show ?thesis by (simp add: den_Seq)
qed

lemma den_seqs_Nil: "den (seqs []) b w r' g g' \<longleftrightarrow> w = [] \<and> g' = g"
  by (simp add: den_Eps)

lemma search_from_here:
  "m p (b, r, Map.empty) = (b', r', g) # rest \<Longrightarrow>
     search_from p b r = Some \<lparr>whole = consumed b b', groups = g\<rparr>"
  by (cases r) simp_all

lemma search_from_skip:
  "m p (b, c # cs, Map.empty) = [] \<Longrightarrow> search_from p b (c # cs) = search_from p (c # b) cs"
  by simp

lemma search_from_Some:
  "search_from p b r = Some mt \<Longrightarrow>
     \<exists>u w r' g. r = u @ w @ r' \<and> den p (rev u @ b) w r' Map.empty g \<and> mt = \<lparr>whole = w, groups = g\<rparr>"
proof (induction r arbitrary: b)
  case Nil
  then obtain b' r' g rest where 1: "m p (b, [], Map.empty) = (b', r', g) # rest"
    and mt: "mt = \<lparr>whole = consumed b b', groups = g\<rparr>"
    by (auto split: list.splits)
  from 1 have "(b', r', g) \<in> set (m p (b, [], Map.empty))" by simp
  then obtain w where "[] = w @ r'" "b' = rev w @ b" "den p b w r' Map.empty g"
    unfolding in_m_den by blast
  with mt have "[] = [] @ w @ r'" "den p (rev [] @ b) w r' Map.empty g"
    "mt = \<lparr>whole = w, groups = g\<rparr>" by (simp_all add: consumed_rev)
  then show ?case by blast
next
  case (Cons c cs)
  show ?case
  proof (cases "m p (b, c # cs, Map.empty)")
    case Nil
    with Cons.prems have "search_from p (c # b) cs = Some mt" by simp
    from Cons.IH [OF this] obtain u w r' g where
      "cs = u @ w @ r'" "den p (rev u @ c # b) w r' Map.empty g" "mt = \<lparr>whole = w, groups = g\<rparr>"
      by blast
    then have "c # cs = (c # u) @ w @ r'" "den p (rev (c # u) @ b) w r' Map.empty g"
      "mt = \<lparr>whole = w, groups = g\<rparr>" by simp_all
    then show ?thesis by blast
  next
    case (Cons s rest)
    obtain b' r' g where s: "s = (b', r', g)" by (cases s)
    with Cons Cons.prems have mt: "mt = \<lparr>whole = consumed b b', groups = g\<rparr>" by simp
    from Cons s have "(b', r', g) \<in> set (m p (b, c # cs, Map.empty))" by simp
    then obtain w where "c # cs = w @ r'" "b' = rev w @ b" "den p b w r' Map.empty g"
      unfolding in_m_den by blast
    with mt have "c # cs = [] @ w @ r'" "den p (rev [] @ b) w r' Map.empty g"
      "mt = \<lparr>whole = w, groups = g\<rparr>" by (simp_all add: consumed_rev)
    then show ?thesis by blast
  qed
qed

lemma search_from_None:
  "search_from p b r = None \<longleftrightarrow> (\<forall>u v. r = u @ v \<longrightarrow> m p (rev u @ b, v, Map.empty) = [])"
proof (induction r arbitrary: b)
  case Nil
  then show ?case by (auto split: list.splits)
next
  case (Cons c cs)
  show ?case
  proof (cases "m p (b, c # cs, Map.empty)")
    case Nil
    have "(\<forall>u v. c # cs = u @ v \<longrightarrow> m p (rev u @ b, v, Map.empty) = []) \<longleftrightarrow>
          (\<forall>u v. cs = u @ v \<longrightarrow> m p (rev u @ c # b, v, Map.empty) = [])"
    proof (intro iffI allI impI)
      fix u v assume a: "\<forall>u v. c # cs = u @ v \<longrightarrow> m p (rev u @ b, v, Map.empty) = []" and "cs = u @ v"
      then have "c # cs = (c # u) @ v" by simp
      with a have "m p (rev (c # u) @ b, v, Map.empty) = []" by blast
      then show "m p (rev u @ c # b, v, Map.empty) = []" by simp
    next
      fix u v assume a: "\<forall>u v. cs = u @ v \<longrightarrow> m p (rev u @ c # b, v, Map.empty) = []" and e: "c # cs = u @ v"
      show "m p (rev u @ b, v, Map.empty) = []"
      proof (cases u)
        case Nil
        with e \<open>m p (b, c # cs, Map.empty) = []\<close> show ?thesis by simp
      next
        case (Cons d u')
        with e have "cs = u' @ v" "d = c" by simp_all
        with a Cons show ?thesis by auto
      qed
    qed
    with Nil Cons.IH [of "c # b"] show ?thesis by simp
  next
    case (Cons s rest)
    then have "search_from p b (c # cs) \<noteq> None" by (auto split: prod.splits)
    moreover have "c # cs = [] @ c # cs" "m p (rev [] @ b, c # cs, Map.empty) \<noteq> []"
      using Cons by simp_all
    then have "\<not> (\<forall>u v. c # cs = u @ v \<longrightarrow> m p (rev u @ b, v, Map.empty) = [])"
      by blast
    ultimately show ?thesis by blast
  qed
qed

lemma ok_digit_range: "ok (Rng CHR ''0'' CHR ''9'') = is_digit"
  by (simp add: fun_eq_iff is_digit_def code_def Let_def)

lemma den_Rep_09:
  "den (Rep (Rng CHR ''0'' CHR ''9'') lo (Some hi)) b w r' g g' \<longleftrightarrow>
     (digits w \<and> lo \<le> length w \<and> length w \<le> hi) \<and> g' = g"
  by (auto simp: den_Rep digits_def ok_digit_range simp del: ok.simps)

lemma den_Rep_D:
  "den (Rep ClsD lo (Some hi)) b w r' g g' \<longleftrightarrow> (digits w \<and> lo \<le> length w \<and> length w \<le> hi) \<and> g' = g"
  by (auto simp: den_Rep digits_def fun_eq_iff cong: list.pred_cong)

lemma den_Rep_S:
  "den (Rep ClsS 1 None) b w r' g g' \<longleftrightarrow> spaces w \<and> g' = g"
  by (cases w) (auto simp: den_Rep spaces_def fun_eq_iff cong: list.pred_cong)

lemma den_Rep_opt:
  "den (Rep (Chr c) 0 (Some 1)) b w r' g g' \<longleftrightarrow> lower w = take (length w) (lower [c]) \<and> g' = g"
  by (cases w) (auto simp: den_Rep lower_def)

lemma den_Atom_S: "den (Atom ClsS) b w r' g g' \<longleftrightarrow> (\<exists>c. w = [c] \<and> is_space c) \<and> g' = g"
  by (auto simp: den_Atom)

lemma den_Atom_Dot: "den (Atom Dot) b w r' g g' \<longleftrightarrow> (\<exists>c. w = [c] \<and> c \<noteq> CHR 0x0A) \<and> g' = g"
  by (auto simp: den_Atom)

section \<open>The primary pattern\<close>

lemma lower_append: "lower (u @ v) = lower u @ lower v"
  by (simp add: lower_def)

lemma lower_chr_eq_low: "code p < 65 \<Longrightarrow> lower_chr c = lower_chr p \<longleftrightarrow> c = p"
  using ok_Chr_low [of p c] by auto

lemma lower_single: "code p < 65 \<Longrightarrow> lower w = lower [p] \<longleftrightarrow> w = [p]"
  by (cases w) (simp_all add: lower_def lower_chr_eq_low)

lemma lower_paren: "lower w = lower ''('' \<longleftrightarrow> w = ''(''" "lower w = lower '')'' \<longleftrightarrow> w = '')''"
  by (simp_all add: lower_single code_def)

lemma lower_reporter: "lower ''UNITED STATES TAX COURT REPORT'' = ''united states tax court report''"
  by code_simp

lemma lower_S: "lower ''S'' = ''s''"
  by code_simp

lemma den_primary:
  "den tax_court_reports_regex b w r' g g' \<longleftrightarrow>
     (\<exists>vol ws1 name s ws2 lp page rp.
        w = vol @ ws1 @ name @ s @ ws2 @ lp @ page @ rp \<and> g' = g(1 \<mapsto> vol, 2 \<mapsto> page) \<and>
        digits vol \<and> 1 \<le> length vol \<and> length vol \<le> 4 \<and> spaces ws1 \<and>
        lower name = lower ''UNITED STATES TAX COURT REPORT'' \<and> lower s = take (length s) (lower ''S'') \<and>
        spaces ws2 \<and> lower lp = lower ''('' \<and>
        digits page \<and> 1 \<le> length page \<and> length page \<le> 4 \<and> lower rp = lower '')'')"
  unfolding tax_court_reports_regex_def seqs.simps den_Seq den_Grp den_Rep_09 den_Rep_D den_Rep_S
    den_Rep_opt den_lit
  apply (rule iffI)
   apply (elim exE conjE, hypsubst, intro exI conjI, (rule refl | assumption)+)
  apply (elim exE conjE, hypsubst, intro exI conjI, (rule refl | assumption)+)
  done

lemma optional_s:
  assumes "lower name = lower ''UNITED STATES TAX COURT REPORT''" "lower s = take (length s) (lower ''S'')"
  shows "lower (name @ s) = ''united states tax court report'' \<or>
         lower (name @ s) = ''united states tax court reports''"
proof (cases s)
  case Nil
  with assms show ?thesis by (simp add: lower_reporter lower_S)
next
  case (Cons c cs)
  with assms(2) have "cs = []" by (cases cs) (simp_all add: lower_S lower_def)
  with Cons assms show ?thesis by (simp add: lower_reporter lower_S lower_append)
qed

lemma primary_match_shape:
  assumes "re_search tax_court_reports_regex text = Some mt"
  shows "\<exists>pre vol ws1 name ws2 page post.
           text = pre @ vol @ ws1 @ name @ ws2 @ ''('' @ page @ '')'' @ post \<and>
           whole mt = vol @ ws1 @ name @ ws2 @ ''('' @ page @ '')'' \<and>
           groups mt 1 = Some vol \<and> groups mt 2 = Some page \<and>
           digits vol \<and> 1 \<le> length vol \<and> length vol \<le> 4 \<and> spaces ws1 \<and>
           (lower name = ''united states tax court report'' \<or>
            lower name = ''united states tax court reports'') \<and>
           spaces ws2 \<and> digits page \<and> 1 \<le> length page \<and> length page \<le> 4"
proof -
  from assms obtain u w r' g where tx: "text = u @ w @ r'"
    and den: "den tax_court_reports_regex (rev u @ []) w r' Map.empty g"
    and mt: "mt = \<lparr>whole = w, groups = g\<rparr>"
    unfolding re_search_def by (blast dest: search_from_Some)
  from den obtain vol ws1 name s ws2 lp page rp where
    w: "w = vol @ ws1 @ name @ s @ ws2 @ lp @ page @ rp" and g: "g = [1 \<mapsto> vol, 2 \<mapsto> page]"
    and props: "digits vol" "1 \<le> length vol" "length vol \<le> 4" "spaces ws1" "spaces ws2"
      "digits page" "1 \<le> length page" "length page \<le> 4"
    and name: "lower name = lower ''UNITED STATES TAX COURT REPORT''"
      "lower s = take (length s) (lower ''S'')"
    and par: "lower lp = lower ''(''" "lower rp = lower '')''"
    unfolding den_primary by blast
  from par have lp: "lp = ''(''" and rp: "rp = '')''" by (simp_all only: lower_paren)
  have "text = u @ vol @ ws1 @ (name @ s) @ ws2 @ ''('' @ page @ '')'' @ r'"
    and "whole mt = vol @ ws1 @ (name @ s) @ ws2 @ ''('' @ page @ '')''"
    and "groups mt 1 = Some vol" and "groups mt 2 = Some page"
    using tx w g mt lp rp by simp_all
  with props optional_s [OF name] show ?thesis by blast
qed

lemma search_primary_138:
  "(case re_search tax_court_reports_regex ''138 United States Tax Court Report (1)'' of
      None \<Rightarrow> False
    | Some mt \<Rightarrow> groups mt 1 = Some ''138'' \<and> groups mt 2 = Some ''1'')"
  by code_simp

lemma search_primary_mixed:
  "(case re_search tax_court_reports_regex ''T.C. Memo 2012-1, 138 United States Tax Court Reports (27)'' of
      None \<Rightarrow> False
    | Some mt \<Rightarrow> groups mt 1 = Some ''138'' \<and> groups mt 2 = Some ''27'')"
  by code_simp

lemma search_alt_mixed:
  "(case re_search tax_court_alt_regex ''T.C. Memo 2012-1, 138 United States Tax Court Reports (27)'' of
      None \<Rightarrow> False
    | Some mt \<Rightarrow> whole mt = ''T.C. Memo 2012-1'')"
  by code_simp

lemma extract_primary_eq:
  "re_search tax_court_reports_regex text = Some mt \<Longrightarrow>
     extract_from_text t text =
       \<lparr>Citation = [''type'' \<mapsto> Ext t, ''volume'' \<mapsto> group mt 1, ''page'' \<mapsto> group mt 2,
                    ''reporter'' \<mapsto> PyStr ''T.C.''],
        OpinionCluster = [''precedential_status'' \<mapsto> PyStr ''Published'']\<rparr>"
  by (simp add: extract_from_text_def)

text \<open>
  C1: whenever the primary pattern matches somewhere in the text, \<open>extract_from_text\<close>
  returns the reporter \<open>T.C.\<close>, the status \<open>Published\<close>, and as volume and page the first and
  second group of that match, which are the digits standing in the text before the words
  "United States Tax Court Report(s)" and between the parentheses after them. The result
  depends on the primary match alone: the sample text with a Memorandum citation in front,
  which the alternate pattern matches, still yields the fields of the primary match. The
  spec's example yields volume 138 and page 1.
\<close>

theorem extract_primary:
  "(\<forall>text mt. re_search tax_court_reports_regex text = Some mt \<longrightarrow>
      extract_from_text t text =
        \<lparr>Citation = [''type'' \<mapsto> Ext t, ''volume'' \<mapsto> group mt 1, ''page'' \<mapsto> group mt 2,
                     ''reporter'' \<mapsto> PyStr ''T.C.''],
         OpinionCluster = [''precedential_status'' \<mapsto> PyStr ''Published'']\<rparr> \<and>
      (\<exists>pre vol ws1 name ws2 page post.
         text = pre @ vol @ ws1 @ name @ ws2 @ ''('' @ page @ '')'' @ post \<and>
         whole mt = vol @ ws1 @ name @ ws2 @ ''('' @ page @ '')'' \<and>
         groups mt 1 = Some vol \<and> groups mt 2 = Some page \<and>
         digits vol \<and> 1 \<le> length vol \<and> length vol \<le> 4 \<and> spaces ws1 \<and>
         (lower name = ''united states tax court report'' \<or>
          lower name = ''united states tax court reports'') \<and>
         spaces ws2 \<and> digits page \<and> 1 \<le> length page \<and> length page \<le> 4))
   \<and> extract_from_text t ''138 United States Tax Court Report (1)'' =
        \<lparr>Citation = [''type'' \<mapsto> Ext t, ''volume'' \<mapsto> PyStr ''138'', ''page'' \<mapsto> PyStr ''1'',
                     ''reporter'' \<mapsto> PyStr ''T.C.''],
         OpinionCluster = [''precedential_status'' \<mapsto> PyStr ''Published'']\<rparr>
   \<and> re_search tax_court_alt_regex ''T.C. Memo 2012-1, 138 United States Tax Court Reports (27)'' \<noteq> None
   \<and> extract_from_text t ''T.C. Memo 2012-1, 138 United States Tax Court Reports (27)'' =
        \<lparr>Citation = [''type'' \<mapsto> Ext t, ''volume'' \<mapsto> PyStr ''138'', ''page'' \<mapsto> PyStr ''27'',
                     ''reporter'' \<mapsto> PyStr ''T.C.''],
         OpinionCluster = [''precedential_status'' \<mapsto> PyStr ''Published'']\<rparr>"
proof (intro conjI allI impI)
  fix tx mt assume "re_search tax_court_reports_regex tx = Some mt"
  then show "extract_from_text t tx =
        \<lparr>Citation = [''type'' \<mapsto> Ext t, ''volume'' \<mapsto> group mt 1, ''page'' \<mapsto> group mt 2,
                     ''reporter'' \<mapsto> PyStr ''T.C.''],
         OpinionCluster = [''precedential_status'' \<mapsto> PyStr ''Published'']\<rparr>"
    by (rule extract_primary_eq)
next
  fix tx mt assume "re_search tax_court_reports_regex tx = Some mt"
  then show "\<exists>pre vol ws1 name ws2 page post.
         tx = pre @ vol @ ws1 @ name @ ws2 @ ''('' @ page @ '')'' @ post \<and>
         whole mt = vol @ ws1 @ name @ ws2 @ ''('' @ page @ '')'' \<and>
         groups mt 1 = Some vol \<and> groups mt 2 = Some page \<and>
         digits vol \<and> 1 \<le> length vol \<and> length vol \<le> 4 \<and> spaces ws1 \<and>
         (lower name = ''united states tax court report'' \<or>
          lower name = ''united states tax court reports'') \<and>
         spaces ws2 \<and> digits page \<and> 1 \<le> length page \<and> length page \<le> 4"
    by (rule primary_match_shape)
next
  from search_primary_138 obtain mt where
    mt: "re_search tax_court_reports_regex ''138 United States Tax Court Report (1)'' = Some mt"
    and g: "groups mt 1 = Some ''138''" "groups mt 2 = Some ''1''"
    by (cases "re_search tax_court_reports_regex ''138 United States Tax Court Report (1)''") simp_all
  show "extract_from_text t ''138 United States Tax Court Report (1)'' =
        \<lparr>Citation = [''type'' \<mapsto> Ext t, ''volume'' \<mapsto> PyStr ''138'', ''page'' \<mapsto> PyStr ''1'',
                     ''reporter'' \<mapsto> PyStr ''T.C.''],
         OpinionCluster = [''precedential_status'' \<mapsto> PyStr ''Published'']\<rparr>"
    unfolding extract_primary_eq [OF mt] group_def g by simp
next
  show "re_search tax_court_alt_regex ''T.C. Memo 2012-1, 138 United States Tax Court Reports (27)'' \<noteq> None"
    using search_alt_mixed
    by (cases "re_search tax_court_alt_regex ''T.C. Memo 2012-1, 138 United States Tax Court Reports (27)''")
      simp_all
next
  from search_primary_mixed obtain mt where
    mt: "re_search tax_court_reports_regex ''T.C. Memo 2012-1, 138 United States Tax Court Reports (27)'' = Some mt"
    and g: "groups mt 1 = Some ''138''" "groups mt 2 = Some ''27''"
    by (cases "re_search tax_court_reports_regex ''T.C. Memo 2012-1, 138 United States Tax Court Reports (27)''")
      simp_all
  show "extract_from_text t ''T.C. Memo 2012-1, 138 United States Tax Court Reports (27)'' =
        \<lparr>Citation = [''type'' \<mapsto> Ext t, ''volume'' \<mapsto> PyStr ''138'', ''page'' \<mapsto> PyStr ''27'',
                     ''reporter'' \<mapsto> PyStr ''T.C.''],
         OpinionCluster = [''precedential_status'' \<mapsto> PyStr ''Published'']\<rparr>"
    unfolding extract_primary_eq [OF mt] group_def g by simp
qed

lemma search_primary_upper:
  "(case re_search tax_court_reports_regex ''see 9 UNITED STATES TAX COURT REPORTS (1234).'' of
      None \<Rightarrow> False
    | Some mt \<Rightarrow> groups mt 1 = Some ''9'' \<and> groups mt 2 = Some ''1234'')"
  by code_simp

theorem extract_primary_witness:
  "extract_from_text (4::nat) ''see 9 UNITED STATES TAX COURT REPORTS (1234).'' =
     \<lparr>Citation = [''type'' \<mapsto> Ext 4, ''volume'' \<mapsto> PyStr ''9'', ''page'' \<mapsto> PyStr ''1234'',
                  ''reporter'' \<mapsto> PyStr ''T.C.''],
      OpinionCluster = [''precedential_status'' \<mapsto> PyStr ''Published'']\<rparr>"
proof -
  from search_primary_upper obtain mt where
    mt: "re_search tax_court_reports_regex ''see 9 UNITED STATES TAX COURT REPORTS (1234).'' = Some mt"
    and g: "groups mt 1 = Some ''9''" "groups mt 2 = Some ''1234''"
    by (cases "re_search tax_court_reports_regex ''see 9 UNITED STATES TAX COURT REPORTS (1234).''") simp_all
  have "extract_from_text (4::nat) ''see 9 UNITED STATES TAX COURT REPORTS (1234).'' =
        \<lparr>Citation = [''type'' \<mapsto> Ext 4, ''volume'' \<mapsto> group mt 1, ''page'' \<mapsto> group mt 2,
                     ''reporter'' \<mapsto> PyStr ''T.C.''],
         OpinionCluster = [''precedential_status'' \<mapsto> PyStr ''Published'']\<rparr>"
    by (rule extract_primary [of 4, THEN conjunct1, rule_format, OF mt, THEN conjunct1])
  then show ?thesis unfolding group_def g by simp
qed

section \<open>No citation in the text\<close>

lemma search_primary_plain:
  "re_search tax_court_reports_regex ''no citation here'' = None"
  by code_simp

lemma search_alt_plain:
  "re_search tax_court_alt_regex ''no citation here'' = None"
  by code_simp

text \<open>
  C4: when neither pattern matches anywhere in the text, \<open>extract_from_text\<close> returns the
  initial metadata: the Citation dictionary holds its type only (no volume, page or
  reporter) and the precedential status is the empty string. The function has no failing
  branch.
\<close>

theorem extract_no_match:
  assumes "re_search tax_court_reports_regex text = None"
    and "re_search tax_court_alt_regex text = None"
  shows "extract_from_text t text =
           \<lparr>Citation = [''type'' \<mapsto> Ext t],
            OpinionCluster = [''precedential_status'' \<mapsto> PyStr '''']\<rparr>"
  using assms by (simp add: extract_from_text_def)

theorem extract_no_match_witness:
  "extract_from_text (4::nat) ''no citation here'' =
     \<lparr>Citation = [''type'' \<mapsto> Ext 4],
      OpinionCluster = [''precedential_status'' \<mapsto> PyStr '''']\<rparr>"
  by (rule extract_no_match [OF search_primary_plain search_alt_plain])

section \<open>Citations in lower case\<close>

lemma search_primary_lower_numbered:
  "re_search tax_court_reports_regex ''45 t.c. no. 3'' = None"
  by code_simp

lemma search_alt_lower_numbered:
  "(case re_search tax_court_alt_regex ''45 t.c. no. 3'' of
      None \<Rightarrow> False
    | Some mt \<Rightarrow> whole mt = ''45 t.c. no. 3'' \<and> groups mt 6 = None \<and> groups mt 7 = None \<and>
        groups mt 8 = Some ''45'' \<and> groups mt 10 = Some ''3'')"
  by code_simp

lemma search_primary_lower_memo:
  "re_search tax_court_reports_regex ''t.c. memo 2012-1'' = None"
  by code_simp

lemma search_alt_lower_memo:
  "(case re_search tax_court_alt_regex ''t.c. memo 2012-1'' of
      None \<Rightarrow> False
    | Some mt \<Rightarrow> whole mt = ''t.c. memo 2012-1'' \<and> groups mt 6 = Some ''2012'' \<and> groups mt 7 = Some ''1'')"
  by code_simp

text \<open>
  C10: the patterns match in any letter case, but the tests for \<open>No.\<close>, \<open>Memo\<close> and
  \<open>Summary\<close> on the matched text are case-sensitive. On \<open>t.c. memo 2012-1\<close> the match
  succeeds, the Memorandum/Summary branch is taken, the status is \<open>Unpublished\<close> and no
  reporter is set. On \<open>45 t.c. no. 3\<close> the numbered-opinion alternative matches (groups 8
  and 10 hold 45 and 3), yet the same branch is taken: volume and page are read from groups
  6 and 7, which took no part in the match, and no reporter is set.
\<close>

theorem extract_lower_case_alt:
  "extract_from_text t ''t.c. memo 2012-1'' =
     \<lparr>Citation = [''type'' \<mapsto> Ext t, ''volume'' \<mapsto> PyStr ''2012'', ''page'' \<mapsto> PyStr ''1''],
      OpinionCluster = [''precedential_status'' \<mapsto> PyStr ''Unpublished'']\<rparr>
   \<and> extract_from_text t ''45 t.c. no. 3'' =
     \<lparr>Citation = [''type'' \<mapsto> Ext t, ''volume'' \<mapsto> PyNone, ''page'' \<mapsto> PyNone],
      OpinionCluster = [''precedential_status'' \<mapsto> PyStr ''Unpublished'']\<rparr>
   \<and> (case re_search tax_court_alt_regex ''45 t.c. no. 3'' of
         None \<Rightarrow> False
       | Some mt \<Rightarrow> groups mt 8 = Some ''45'' \<and> groups mt 10 = Some ''3'' \<and>
           groups mt 6 = None \<and> groups mt 7 = None)"
  using search_primary_lower_numbered search_alt_lower_numbered
    search_primary_lower_memo search_alt_lower_memo
  by (simp add: extract_from_text_def group_def split: option.splits)

section \<open>Substrings, \<open>strip\<close> and \<open>replace\<close>\<close>

declare replace.simps [simp del]

lemma contains_iff: "contains n h \<longleftrightarrow> (\<exists>u v. h = u @ n @ v)"
proof (induction h)
  case Nil
  then show ?case by auto
next
  case (Cons c cs)
  show ?case
  proof
    assume "contains n (c # cs)"
    then consider "prefix n (c # cs)" | "contains n cs" by auto
    then show "\<exists>u v. c # cs = u @ n @ v"
    proof cases
      case 1
      then obtain v where "c # cs = n @ v" by (auto simp: prefix_def)
      then have "c # cs = [] @ n @ v" by simp
      then show ?thesis by blast
    next
      case 2
      with Cons.IH obtain u v where "cs = u @ n @ v" by blast
      then have "c # cs = (c # u) @ n @ v" by simp
      then show ?thesis by blast
    qed
  next
    assume "\<exists>u v. c # cs = u @ n @ v"
    then obtain u v where eq: "c # cs = u @ n @ v" by blast
    show "contains n (c # cs)"
    proof (cases u)
      case Nil
      with eq have "prefix n (c # cs)" by (simp add: prefix_def)
      then show ?thesis by simp
    next
      case (Cons d u')
      with eq have "cs = u' @ n @ v" by simp
      with Cons.IH show ?thesis by auto
    qed
  qed
qed

lemma contains_appendI: "contains n h \<Longrightarrow> contains n (u @ h @ v)"
proof -
  assume "contains n h"
  then obtain a b where "h = a @ n @ b" unfolding contains_iff by blast
  then have "u @ h @ v = (u @ a) @ n @ (b @ v)" by simp
  then show ?thesis unfolding contains_iff by blast
qed

lemma dropWhile_keeps:
  assumes "n \<noteq> []" "\<not> P (hd n)"
  shows "\<exists>u'. dropWhile P (u @ n @ v) = u' @ n @ v"
proof (cases "\<exists>x\<in>set u. \<not> P x")
  case True
  then obtain x where "x \<in> set u" "\<not> P x" by blast
  then have "dropWhile P (u @ n @ v) = dropWhile P u @ n @ v" by (rule dropWhile_append1)
  then show ?thesis by blast
next
  case False
  then have "dropWhile P (u @ n @ v) = dropWhile P (n @ v)" by (simp add: dropWhile_append2)
  also have "\<dots> = [] @ n @ v" using assms by (cases n) simp_all
  finally show ?thesis by blast
qed

lemma strip_inside: "\<exists>u v. s = u @ strip s @ v"
proof -
  have "s = takeWhile is_space s @ dropWhile is_space s" by simp
  moreover have "rev (dropWhile is_space s) =
      takeWhile is_space (rev (dropWhile is_space s)) @ dropWhile is_space (rev (dropWhile is_space s))"
    by simp
  then have "dropWhile is_space s =
      strip s @ rev (takeWhile is_space (rev (dropWhile is_space s)))"
    unfolding strip_def by (metis rev_append rev_rev_ident)
  ultimately have "s = takeWhile is_space s @ strip s @ rev (takeWhile is_space (rev (dropWhile is_space s)))"
    by simp
  then show ?thesis by blast
qed

lemma contains_strip:
  assumes "n \<noteq> []" "\<not> is_space (hd n)" "\<not> is_space (last n)"
  shows "contains n (strip s) \<longleftrightarrow> contains n s"
proof
  assume "contains n (strip s)"
  moreover obtain u v where "s = u @ strip s @ v" using strip_inside by blast
  ultimately show "contains n s" using contains_appendI by metis
next
  assume "contains n s"
  then obtain u v where "s = u @ n @ v" unfolding contains_iff by blast
  with dropWhile_keeps [of n is_space u v, OF assms(1,2)] obtain u' where
    1: "dropWhile is_space s = u' @ n @ v"
    by blast
  have "rev n \<noteq> []" "\<not> is_space (hd (rev n))" using assms by (simp_all add: hd_rev)
  from dropWhile_keeps [of "rev n" is_space "rev v" "rev u'", OF this] obtain v' where
    "dropWhile is_space (rev v @ rev n @ rev u') = v' @ rev n @ rev u'" by blast
  with 1 have "strip s = u' @ n @ rev v'" by (simp add: strip_def)
  then show "contains n (strip s)" unfolding contains_iff by blast
qed

lemma is_space_lower_chr: "is_space (lower_chr c) = is_space c"
  by (auto simp: is_space_def lower_chr_code Let_def)

lemma lower_dropWhile: "lower (dropWhile is_space s) = dropWhile is_space (lower s)"
  by (induction s) (simp_all add: lower_def is_space_lower_chr)

lemma lower_strip: "lower (strip s) = strip (lower s)"
proof -
  have "lower (rev s) = rev (lower s)" for s by (simp add: lower_def rev_map)
  then show ?thesis by (simp add: strip_def lower_dropWhile)
qed

lemma replace_absent: "old \<noteq> [] \<Longrightarrow> hd old \<notin> set s \<Longrightarrow> replace old new s = s"
proof (induction s)
  case Nil
  then show ?case by (subst replace.simps) (simp add: prefix_def)
next
  case (Cons c cs)
  from Cons.prems have "\<not> prefix old (c # cs)" by (cases old) auto
  with Cons show ?case by (subst replace.simps) simp
qed

lemma prefix_last_in_take:
  assumes "old \<noteq> []" "prefix old xs"
  shows "last old \<in> set (take (length old) xs)"
proof -
  from assms(2) have "take (length old) xs = old" by (auto simp: prefix_def)
  with assms(1) show ?thesis by simp
qed

lemma replace_first:
  assumes "old \<noteq> []" "last old \<notin> set pre" "last old \<notin> set (butlast old)"
  shows "replace old new (pre @ old @ rest) = pre @ new @ replace old new rest"
  using assms(2)
proof (induction pre)
  case Nil
  show ?case using assms(1) by (subst replace.simps) simp
next
  case (Cons c pre)
  have "\<not> prefix old ((c # pre) @ old @ rest)"
  proof
    assume "prefix old ((c # pre) @ old @ rest)"
    define k where "k = length old - length (c # pre)"
    have k: "k \<le> length (butlast old)" using assms(1) by (simp add: k_def)
    have "take k (butlast old @ (last old # rest)) = take k (butlast old)" using k by simp
    moreover have "butlast old @ (last old # rest) = old @ rest" using assms(1) by simp
    ultimately have tk: "take k (old @ rest) = take k (butlast old)" by (simp only:)
    note tk
    moreover have "take (length old) ((c # pre) @ (old @ rest)) =
        take (length old) (c # pre) @ take k (old @ rest)"
      unfolding k_def by (rule take_append)
    ultimately have "take (length old) ((c # pre) @ old @ rest) =
        take (length old) (c # pre) @ take k (butlast old)"
      by (simp only:)
    with prefix_last_in_take [OF assms(1) \<open>prefix old ((c # pre) @ old @ rest)\<close>]
    have "last old \<in> set (take (length old) (c # pre)) \<union> set (take k (butlast old))"
      by simp
    then have "last old \<in> set (c # pre) \<union> set (butlast old)"
      by (auto dest: in_set_takeD)
    with Cons.prems assms(3) show False by auto
  qed
  moreover from Cons have "replace old new (pre @ old @ rest) = pre @ new @ replace old new rest"
    by simp
  ultimately show ?case using assms(1) by (subst replace.simps) simp
qed

section \<open>Precedential status of a result row\<close>

lemma needle_ends:
  "\<not> is_space CHR ''o''" "\<not> is_space CHR ''n''" "\<not> is_space CHR ''m''" "\<not> is_space CHR ''s''"
  "\<not> is_space CHR ''y''"
  by (simp_all add: is_space_def code_def)

lemma contains_lower_strip:
  "contains ''opinion'' (lower (strip s)) = contains ''opinion'' (lower s)"
  "contains ''memorandum'' (lower (strip s)) = contains ''memorandum'' (lower s)"
  "contains ''summary'' (lower (strip s)) = contains ''summary'' (lower s)"
  by (simp_all add: lower_strip contains_strip needle_ends)

lemma precedential_status_lower:
  "precedential_status s =
     (if contains ''opinion'' (lower s) then ''Published''
      else if contains ''memorandum'' (lower s) \<or> contains ''summary'' (lower s) then ''Unpublished''
      else ''Unknown'')"
  by (simp add: precedential_status_def contains_lower_strip Let_def)

lemma both_labels:
  "contains ''opinion'' (lower ''T.C. Memorandum Opinion'') \<and>
   contains ''memorandum'' (lower ''T.C. Memorandum Opinion'')"
  by code_simp

lemma status_sample_1: "precedential_status '' Memorandum Opinion '' = ''Published''"
  by code_simp

lemma status_sample_2: "precedential_status ''Summary'' = ''Unpublished''"
  by code_simp

lemma status_sample_3: "precedential_status ''Order'' = ''Unknown''"
  by code_simp

text \<open>
  C5: the status of each row is computed from the text of its second column, lower-cased
  (the surrounding whitespace that the code strips first makes no difference): Published if
  it contains "opinion", else Unpublished if it contains "memorandum" or "summary", else
  Unknown. A label that contains both "opinion" and "memorandum" is Published.
\<close>

theorem precedential_statuses:
  "get_precedential_statuses doc =
     map (\<lambda>td. if contains ''opinion'' (lower (text_content td)) then ''Published''
               else if contains ''memorandum'' (lower (text_content td)) \<or>
                       contains ''summary'' (lower (text_content td)) then ''Unpublished''
               else ''Unknown'')
         (xpath_td 2 False doc)
   \<and> (\<forall>label. contains ''opinion'' (lower label) \<and> contains ''memorandum'' (lower label) \<longrightarrow>
         precedential_status label = ''Published'')
   \<and> precedential_status '' Memorandum Opinion '' = ''Published''
   \<and> precedential_status ''Summary'' = ''Unpublished''
   \<and> precedential_status ''Order'' = ''Unknown''"
proof (intro conjI allI impI)
  show "get_precedential_statuses doc =
     map (\<lambda>td. if contains ''opinion'' (lower (text_content td)) then ''Published''
               else if contains ''memorandum'' (lower (text_content td)) \<or>
                       contains ''summary'' (lower (text_content td)) then ''Unpublished''
               else ''Unknown'')
         (xpath_td 2 False doc)"
    unfolding get_precedential_statuses_def precedential_status_lower ..
next
  fix label
  assume "contains ''opinion'' (lower label) \<and> contains ''memorandum'' (lower label)"
  then show "precedential_status label = ''Published''"
    unfolding precedential_status_lower by (simp only: if_True)
qed (rule status_sample_1 status_sample_2 status_sample_3)+

theorem precedential_statuses_witness:
  "precedential_status ''T.C. Memorandum Opinion'' = ''Published''"
  using precedential_statuses [of "Text []"] both_labels by blast

section \<open>Download URLs\<close>

lemma digits_not_O: "digits ident \<Longrightarrow> CHR ''O'' \<notin> set ident"
  by (auto simp: digits_def list_all_iff is_digit_def code_def Let_def)

lemma fix_href_hash:
  assumes "digits ident" "CHR ''#'' \<notin> set pre"
    and "\<not> contains ''?ID'' (pre @ ''OpinionSearch.aspx#'' @ ident)"
  shows "fix_href (pre @ ''OpinionSearch.aspx#'' @ ident) = pre @ ''OpinionViewer.aspx?ID='' @ ident"
proof -
  have "replace ''OpinionSearch.aspx#'' ''OpinionViewer.aspx?ID='' ident = ident"
    using digits_not_O [OF assms(1)] by (intro replace_absent) simp_all
  moreover have "replace ''OpinionSearch.aspx#'' ''OpinionViewer.aspx?ID='' (pre @ ''OpinionSearch.aspx#'' @ ident) =
      pre @ ''OpinionViewer.aspx?ID='' @ replace ''OpinionSearch.aspx#'' ''OpinionViewer.aspx?ID='' ident"
    using assms(2) by (intro replace_first) simp_all
  ultimately show ?thesis using assms(3) by (simp only: fix_href_def if_False)
qed

lemma fix_href_sample_hash:
  "fix_href ''https://www.ustaxcourt.gov/UstcInOp/OpinionSearch.aspx#12345'' =
     ''https://www.ustaxcourt.gov/UstcInOp/OpinionViewer.aspx?ID=12345''"
  by code_simp

lemma fix_href_sample_id:
  "fix_href ''https://www.ustaxcourt.gov/UstcInOp/OpinionViewer.aspx?ID=999'' =
     ''https://www.ustaxcourt.gov/UstcInOp/OpinionViewer.aspx?ID=999''"
  by code_simp

lemma no_id_sample: "\<not> contains ''?ID'' (''x/'' @ ''OpinionSearch.aspx#'' @ ''11813'')"
  by code_simp

lemma digits_sample: "digits ''11813''"
  by code_simp

text \<open>
  C6: the list of download URLs has one entry for each \<open>href\<close> found, in the same order:
  the \<open>href\<close> itself when it contains \<open>?ID\<close>, and otherwise the \<open>href\<close> with
  \<open>OpinionSearch.aspx#\<close> replaced by \<open>OpinionViewer.aspx?ID=\<close>. For a link that ends in
  \<open>OpinionSearch.aspx#\<close> and a number, with no other \<open>#\<close>, the result is the text before,
  \<open>OpinionViewer.aspx?ID=\<close> and the same number.
\<close>

theorem download_urls:
  "length (get_download_urls doc) = length (xpath_href False doc)
   \<and> (\<forall>i < length (xpath_href False doc).
         get_download_urls doc ! i =
           (if contains ''?ID'' (xpath_href False doc ! i) then xpath_href False doc ! i
            else replace ''OpinionSearch.aspx#'' ''OpinionViewer.aspx?ID='' (xpath_href False doc ! i)))
   \<and> (\<forall>pre ident. digits ident \<and> CHR ''#'' \<notin> set pre \<and>
         \<not> contains ''?ID'' (pre @ ''OpinionSearch.aspx#'' @ ident) \<longrightarrow>
         fix_href (pre @ ''OpinionSearch.aspx#'' @ ident) = pre @ ''OpinionViewer.aspx?ID='' @ ident)
   \<and> fix_href ''https://www.ustaxcourt.gov/UstcInOp/OpinionSearch.aspx#12345'' =
        ''https://www.ustaxcourt.gov/UstcInOp/OpinionViewer.aspx?ID=12345''
   \<and> fix_href ''https://www.ustaxcourt.gov/UstcInOp/OpinionViewer.aspx?ID=999'' =
        ''https://www.ustaxcourt.gov/UstcInOp/OpinionViewer.aspx?ID=999''"
proof (intro conjI allI impI)
  show "length (get_download_urls doc) = length (xpath_href False doc)"
    by (simp add: get_download_urls_def)
next
  fix i assume "i < length (xpath_href False doc)"
  then show "get_download_urls doc ! i =
           (if contains ''?ID'' (xpath_href False doc ! i) then xpath_href False doc ! i
            else replace ''OpinionSearch.aspx#'' ''OpinionViewer.aspx?ID='' (xpath_href False doc ! i))"
    by (simp add: get_download_urls_def fix_href_def)
next
  fix pre ident
  assume "digits ident \<and> CHR ''#'' \<notin> set pre \<and>
         \<not> contains ''?ID'' (pre @ ''OpinionSearch.aspx#'' @ ident)"
  then show "fix_href (pre @ ''OpinionSearch.aspx#'' @ ident) = pre @ ''OpinionViewer.aspx?ID='' @ ident"
    using fix_href_hash by blast
qed (rule fix_href_sample_hash fix_href_sample_id)+

theorem download_urls_witness:
  "fix_href (''x/'' @ ''OpinionSearch.aspx#'' @ ''11813'') = ''x/'' @ ''OpinionViewer.aspx?ID='' @ ''11813''"
proof -
  have "CHR ''#'' \<notin> set ''x/''" by simp
  with download_urls [of "Text []"] digits_sample no_id_sample show ?thesis by blast
qed

section \<open>The four columns of the result table\<close>

lemma xpath_td_no_cells:
  "no_cells c \<Longrightarrow> xpath_td k inside c = []"
  "list_all no_cells cs \<Longrightarrow> xpath_td_kids k inside n cs = []"
proof (induction k inside c and k inside n cs rule: xpath_td_xpath_td_kids.induct)
  case (4 k inside n c cs)
  then have "\<not> is_td c" by (cases c) auto
  with 4 show ?case by simp
qed simp_all

lemma xpath_rows_no_cells: "no_cells c \<Longrightarrow> xpath_rows c = []"
proof (induction c)
  case (Element tag attrs kids)
  then have "\<forall>x\<in>set kids. xpath_rows x = []" by (auto simp: list_all_iff)
  with Element.prems show ?case by (simp add: is_row_def)
qed simp

lemma xpath_td_plain: "plain_cell c \<Longrightarrow> xpath_td k inside c = []"
proof (cases c)
  case (Element tag attrs kids)
  assume "plain_cell c"
  with Element have "\<not> is_row tag attrs" "list_all no_cells kids" by (simp_all add: is_row_def)
  with Element show ?thesis by (simp add: xpath_td_no_cells)
qed simp

lemma xpath_rows_plain: "plain_cell c \<Longrightarrow> xpath_rows c = []"
proof (cases c)
  case (Element tag attrs kids)
  assume "plain_cell c"
  with Element have "\<not> is_row tag attrs" "\<forall>x\<in>set kids. xpath_rows x = []"
    by (auto simp: is_row_def list_all_iff xpath_rows_no_cells)
  with Element show ?thesis by simp
qed simp

lemma xpath_td_kids_plain:
  "list_all plain_cell cs \<Longrightarrow>
     xpath_td_kids k True n cs =
       (if n < k \<and> k - n \<le> length (filter is_td cs) then [filter is_td cs ! (k - n - 1)] else [])"
proof (induction cs arbitrary: n)
  case Nil
  then show ?case by simp
next
  case (Cons c cs)
  then have c: "xpath_td k True c = []" and cs: "list_all plain_cell cs"
    by (simp_all add: xpath_td_plain)
  show ?case
  proof (cases "is_td c")
    case False
    with c Cons.IH [OF cs, of n] show ?thesis by simp
  next
    case True
    show ?thesis
    proof (cases "Suc n = k")
      case here: True
      with True c Cons.IH [OF cs, of "Suc n"] show ?thesis by auto
    next
      case False
      with True c Cons.IH [OF cs, of "Suc n"] show ?thesis
        by (auto simp: Suc_diff_Suc nth_Cons')
    qed
  qed
qed

lemma xpath_td_kids_outside:
  "xpath_td_kids k False n cs = concat (map (xpath_td k False) cs)"
  by (induction cs arbitrary: n) simp_all

lemma well_formed_row_td:
  assumes "well_formed_row r" "k < 3"
  shows "xpath_td (Suc k) inside r = [cell k r]"
proof (cases r)
  case (Element tag attrs kids)
  with assms show ?thesis by (simp add: xpath_td_kids_plain)
next
  case (Text s)
  with assms show ?thesis by simp
qed

lemma well_formed_row_href:
  assumes "well_formed_row r"
  shows "xpath_href inside r = [anchor r]"
proof (cases r)
  case (Element tag attrs kids)
  with assms have row: "is_row tag attrs" and one: "length (xpath_href True r) = 1" by simp_all
  from one have "xpath_href True r = [anchor r]"
    unfolding anchor_def by (cases "xpath_href True r") simp_all
  moreover from row Element have "xpath_href inside r = xpath_href True r" by simp
  ultimately show ?thesis by simp
next
  case (Text s)
  with assms show ?thesis by simp
qed

lemma well_formed_row_rows:
  assumes "well_formed_row r"
  shows "xpath_rows r = [r]"
proof (cases r)
  case (Element tag attrs kids)
  with assms have "is_row tag attrs" "\<forall>x\<in>set kids. xpath_rows x = []"
    by (auto simp: list_all_iff xpath_rows_plain)
  with Element show ?thesis by simp
next
  case (Text s)
  with assms show ?thesis by simp
qed

lemma columns_of_rows:
  assumes "list_all well_formed_row (xpath_rows t)" "k < 3"
  shows "xpath_td (Suc k) False t = map (cell k) (xpath_rows t)
       \<and> xpath_href False t = map anchor (xpath_rows t)"
  using assms(1)
proof (induction t)
  case (Text s)
  then show ?case by simp
next
  case (Element tag attrs kids)
  show ?case
  proof (cases "is_row tag attrs")
    case True
    with Element.prems have wf: "well_formed_row (Element tag attrs kids)" by simp
    have "xpath_td (Suc k) False (Element tag attrs kids) = [cell k (Element tag attrs kids)]"
      by (rule well_formed_row_td [OF wf assms(2)])
    moreover have "xpath_href False (Element tag attrs kids) = [anchor (Element tag attrs kids)]"
      by (rule well_formed_row_href [OF wf])
    moreover have "xpath_rows (Element tag attrs kids) = [Element tag attrs kids]"
      by (rule well_formed_row_rows [OF wf])
    ultimately show ?thesis by (simp only: list.map)
  next
    case False
    with Element.prems have "\<forall>x\<in>set kids. list_all well_formed_row (xpath_rows x)"
      by (simp add: list_all_iff)
    with Element.IH have ih: "\<forall>x\<in>set kids. xpath_td (Suc k) False x = map (cell k) (xpath_rows x)
       \<and> xpath_href False x = map anchor (xpath_rows x)" by blast
    have "xpath_td (Suc k) False (Element tag attrs kids) = concat (map (xpath_td (Suc k) False) kids)"
      using False by (simp add: xpath_td_kids_outside)
    also have "\<dots> = concat (map (\<lambda>x. map (cell k) (xpath_rows x)) kids)"
      using ih by (simp cong: map_cong)
    also have "\<dots> = map (cell k) (xpath_rows (Element tag attrs kids))"
      using False by (simp add: map_concat comp_def)
    finally have td: "xpath_td (Suc k) False (Element tag attrs kids) =
        map (cell k) (xpath_rows (Element tag attrs kids))" .
    have "xpath_href False (Element tag attrs kids) = concat (map (xpath_href False) kids)"
      using False by simp
    also have "\<dots> = concat (map (\<lambda>x. map anchor (xpath_rows x)) kids)"
      using ih by (simp cong: map_cong)
    also have "\<dots> = map anchor (xpath_rows (Element tag attrs kids))"
      using False by (simp add: map_concat comp_def)
    finally show ?thesis using td by simp
  qed
qed

lemma parse_dates_Inr:
  "parse_dates ss = Inr ds \<Longrightarrow>
     length ds = length ss \<and> (\<forall>i < length ss. strptime (ss ! i) = Inr (ds ! i))"
proof (induction ss arbitrary: ds)
  case Nil
  then show ?case by simp
next
  case (Cons s ss)
  from Cons.prems obtain d ds' where d: "strptime s = Inr d" and ds': "parse_dates ss = Inr ds'"
    and ds: "ds = d # ds'"
    by (auto split: sum.splits)
  from Cons.IH [OF ds'] d ds show ?case by (auto simp: nth_Cons')
qed

lemma parse_dates_total:
  "\<forall>s\<in>set ss. \<exists>d. strptime s = Inr d \<Longrightarrow> \<exists>ds. parse_dates ss = Inr ds"
  by (induction ss) (auto split: sum.splits)

lemma parse_dates_fails:
  "strptime s = Inl e \<Longrightarrow> s \<in> set ss \<Longrightarrow> \<exists>e'. parse_dates ss = Inl e'"
  by (induction ss) (auto split: sum.splits)

lemma date_parses_iff: "date_parses r \<longleftrightarrow> (\<exists>d. strptime (strip (text_content (cell 2 r))) = Inr d)"
  by (auto simp: date_parses_def split: sum.splits)

lemma getters_of_rows:
  assumes "well_formed doc"
  shows "get_case_names doc =
           map (\<lambda>r. strip (text_content (cell 0 r)) @ '' v. Commissioner'') (xpath_rows doc)"
    and "get_precedential_statuses doc =
           map (\<lambda>r. precedential_status (text_content (cell 1 r))) (xpath_rows doc)"
    and "get_case_dates doc =
           parse_dates (map (\<lambda>r. strip (text_content (cell 2 r))) (xpath_rows doc))"
    and "get_download_urls doc = map (\<lambda>r. fix_href (anchor r)) (xpath_rows doc)"
proof -
  from assms have wf: "list_all well_formed_row (xpath_rows doc)" by (simp add: well_formed_def)
  have 1: "xpath_td (Suc 0) False doc = map (cell 0) (xpath_rows doc)"
    using columns_of_rows [OF wf, of 0] by simp
  have 2: "xpath_td 2 False doc = map (cell 1) (xpath_rows doc)"
    using columns_of_rows [OF wf, of 1] by (simp add: numeral_2_eq_2)
  have 3: "xpath_td 3 False doc = map (cell 2) (xpath_rows doc)"
    using columns_of_rows [OF wf, of 2] by (simp add: numeral_3_eq_3)
  have 4: "xpath_href False doc = map anchor (xpath_rows doc)"
    using columns_of_rows [OF wf, of 0] by simp
  show "get_case_names doc =
           map (\<lambda>r. strip (text_content (cell 0 r)) @ '' v. Commissioner'') (xpath_rows doc)"
    by (simp add: get_case_names_def 1 comp_def)
  show "get_precedential_statuses doc =
           map (\<lambda>r. precedential_status (text_content (cell 1 r))) (xpath_rows doc)"
    by (simp add: get_precedential_statuses_def 2 comp_def)
  show "get_case_dates doc =
           parse_dates (map (\<lambda>r. strip (text_content (cell 2 r))) (xpath_rows doc))"
    by (simp add: get_case_dates_def 3 comp_def)
  show "get_download_urls doc = map (\<lambda>r. fix_href (anchor r)) (xpath_rows doc)"
    by (simp add: get_download_urls_def 4 comp_def)
qed

lemma bad_date_page_rows:
  "well_formed bad_date_page \<and> length (xpath_rows bad_date_page) = 1"
  by code_simp

lemma bad_date_page_dates: "get_case_dates bad_date_page = Inl ValueError"
  by code_simp

lemma sample_page_rows: "well_formed sample_page \<and> length (xpath_rows sample_page) = 2"
  by code_simp

lemma sample_page_dates: "list_all date_parses (xpath_rows sample_page)"
  by code_simp

lemma sample_page_second_row:
  "strip (text_content (cell 0 (xpath_rows sample_page ! 1))) = ''Jones''
   \<and> anchor (xpath_rows sample_page ! 1) = ''https://www.ustaxcourt.gov/UstcInOp/OpinionSearch.aspx#11813''"
  by code_simp

text \<open>
  C7, with the condition the code adds: on a page whose result rows are well formed (three
  cells and one link each) and whose third cells all hold a date that \<open>strptime\<close> accepts
  for \<open>%m/%d/%Y\<close>, the four getters return lists as long as the list of result rows, and
  entry \<open>i\<close> of each list is computed from row \<open>i\<close>: the name from its first cell, the status
  from its second, the date from its third, the URL from its link.
\<close>

theorem result_columns:
  assumes "well_formed doc" and "list_all date_parses (xpath_rows doc)"
  shows "\<exists>dates. get_case_dates doc = Inr dates
    \<and> length (get_case_names doc) = length (xpath_rows doc)
    \<and> length (get_precedential_statuses doc) = length (xpath_rows doc)
    \<and> length dates = length (xpath_rows doc)
    \<and> length (get_download_urls doc) = length (xpath_rows doc)
    \<and> (\<forall>i < length (xpath_rows doc).
          get_case_names doc ! i =
            strip (text_content (cell 0 (xpath_rows doc ! i))) @ '' v. Commissioner''
        \<and> get_precedential_statuses doc ! i =
            precedential_status (text_content (cell 1 (xpath_rows doc ! i)))
        \<and> strptime (strip (text_content (cell 2 (xpath_rows doc ! i)))) = Inr (dates ! i)
        \<and> get_download_urls doc ! i = fix_href (anchor (xpath_rows doc ! i)))"
proof -
  note g = getters_of_rows [OF assms(1)]
  from assms(2) have "\<forall>s \<in> set (map (\<lambda>r. strip (text_content (cell 2 r))) (xpath_rows doc)).
      \<exists>d. strptime s = Inr d"
    by (auto simp: list_all_iff date_parses_iff)
  from parse_dates_total [OF this] obtain dates where
    dates: "parse_dates (map (\<lambda>r. strip (text_content (cell 2 r))) (xpath_rows doc)) = Inr dates"
    by blast
  from parse_dates_Inr [OF dates] have len: "length dates = length (xpath_rows doc)"
    and nth: "\<forall>i < length (xpath_rows doc).
       strptime (strip (text_content (cell 2 (xpath_rows doc ! i)))) = Inr (dates ! i)"
    by simp_all
  have "get_case_dates doc = Inr dates" by (simp only: g(3) dates)
  with len nth show ?thesis by (intro exI [of _ dates]) (simp add: g(1,2,4))
qed

theorem result_columns_witness:
  "length (get_case_names sample_page) = 2
   \<and> length (get_precedential_statuses sample_page) = 2
   \<and> length (get_download_urls sample_page) = 2
   \<and> (\<exists>dates. get_case_dates sample_page = Inr dates \<and> length dates = 2)
   \<and> get_case_names sample_page ! 1 = ''Jones v. Commissioner''
   \<and> get_download_urls sample_page ! 1 =
       fix_href ''https://www.ustaxcourt.gov/UstcInOp/OpinionSearch.aspx#11813''"
proof -
  from sample_page_rows have wf: "well_formed sample_page"
    and n: "length (xpath_rows sample_page) = 2" by simp_all
  from result_columns [OF wf sample_page_dates] obtain dates where
    r: "get_case_dates sample_page = Inr dates"
      "length (get_case_names sample_page) = length (xpath_rows sample_page)"
      "length (get_precedential_statuses sample_page) = length (xpath_rows sample_page)"
      "length dates = length (xpath_rows sample_page)"
      "length (get_download_urls sample_page) = length (xpath_rows sample_page)"
    and rows: "\<forall>i < length (xpath_rows sample_page).
          get_case_names sample_page ! i =
            strip (text_content (cell 0 (xpath_rows sample_page ! i))) @ '' v. Commissioner''
        \<and> get_precedential_statuses sample_page ! i =
            precedential_status (text_content (cell 1 (xpath_rows sample_page ! i)))
        \<and> strptime (strip (text_content (cell 2 (xpath_rows sample_page ! i)))) = Inr (dates ! i)
        \<and> get_download_urls sample_page ! i = fix_href (anchor (xpath_rows sample_page ! i))"
    by blast
  from rows [rule_format, of 1] n sample_page_second_row
  have "get_case_names sample_page ! 1 = ''Jones v. Commissioner''"
    and "get_download_urls sample_page ! 1 =
       fix_href ''https://www.ustaxcourt.gov/UstcInOp/OpinionSearch.aspx#11813''"
    by simp_all
  with r n show ?thesis by auto
qed

theorem result_columns_counterexample:
  "well_formed bad_date_page \<and> length (xpath_rows bad_date_page) = 1
   \<and> get_case_dates bad_date_page = Inl ValueError"
  using bad_date_page_rows bad_date_page_dates by simp

section \<open>The dates of the backscraper\<close>

declare rrule_weekly.simps [simp del]

lemma rrule_weekly_length:
  "length (rrule_weekly d until) = (if until < d then 0 else nat ((until - d) div 7) + 1)"
proof (induction d until rule: rrule_weekly.induct)
  case (1 d until)
  show ?case
  proof (cases "until < d")
    case True
    then show ?thesis by (subst rrule_weekly.simps) simp
  next
    case False
    have step: "length (rrule_weekly d until) = Suc (length (rrule_weekly (d + 7) until))"
      using False by (subst rrule_weekly.simps) simp
    show ?thesis
    proof (cases "until < d + 7")
      case True
      with False have "(until - d) div 7 = 0" by simp
      with 1 [OF False] True False step show ?thesis by simp
    next
      case far: False
      then have "(until - d) div 7 = (until - (d + 7)) div 7 + 1" by simp
      moreover have "0 \<le> (until - (d + 7)) div 7" using far by simp
      ultimately show ?thesis using 1 [OF False] far False step by (simp add: nat_add_distrib)
    qed
  qed
qed

lemma rrule_weekly_nth:
  "i < length (rrule_weekly d until) \<Longrightarrow> rrule_weekly d until ! i = d + 7 * int i"
proof (induction d until arbitrary: i rule: rrule_weekly.induct)
  case (1 d until)
  from "1.prems" have le: "\<not> until < d"
    by (subst (asm) rrule_weekly.simps) (auto split: if_splits)
  then have unfold: "rrule_weekly d until = d # rrule_weekly (d + 7) until"
    by (subst rrule_weekly.simps) simp
  show ?case
  proof (cases i)
    case 0
    then show ?thesis by (simp add: unfold)
  next
    case (Suc j)
    with "1.prems" have "j < length (rrule_weekly (d + 7) until)" by (simp add: unfold)
    from "1.IH" [OF le this] Suc show ?thesis by (simp add: unfold)
  qed
qed

lemma window_ordinals: "ymd2ord 1995 9 25 = 728561" "ymd2ord 2018 11 13 = 737011"
  by (simp_all add: ymd2ord_def days_before_year_def days_before_month_def is_leap_def)

lemma back_scrape_length: "length back_scrape_iterable = 1208"
  by (simp add: back_scrape_iterable_def rrule_weekly_length window_ordinals)

text \<open>
  C8: the weekly dates from 1995-09-25 up to 2018-11-13 are
  \<open>floor((end - start) / 7) + 1\<close> = 1208 dates; the first is the start date, the \<open>i\<close>-th
  lies \<open>7 i\<close> days after it, so each date is 7 days after the one before, and none lies
  after the end date.
\<close>

theorem back_scrape_dates:
  "length back_scrape_iterable = nat ((ymd2ord 2018 11 13 - ymd2ord 1995 9 25) div 7) + 1
   \<and> length back_scrape_iterable = 1208
   \<and> hd back_scrape_iterable = ymd2ord 1995 9 25
   \<and> (\<forall>i < length back_scrape_iterable. back_scrape_iterable ! i = ymd2ord 1995 9 25 + 7 * int i)
   \<and> (\<forall>i. Suc i < length back_scrape_iterable \<longrightarrow>
         back_scrape_iterable ! Suc i = back_scrape_iterable ! i + 7)
   \<and> (\<forall>i j. i < j \<and> j < length back_scrape_iterable \<longrightarrow>
         back_scrape_iterable ! i < back_scrape_iterable ! j)
   \<and> (\<forall>d \<in> set back_scrape_iterable. d \<le> ymd2ord 2018 11 13)"
proof -
  have nth: "back_scrape_iterable ! i = ymd2ord 1995 9 25 + 7 * int i"
    if "i < length back_scrape_iterable" for i
    using that unfolding back_scrape_iterable_def by (rule rrule_weekly_nth)
  have len: "length back_scrape_iterable = 1208" by (rule back_scrape_length)
  have "length back_scrape_iterable = nat ((ymd2ord 2018 11 13 - ymd2ord 1995 9 25) div 7) + 1"
    by (simp add: len window_ordinals)
  moreover have "hd back_scrape_iterable = ymd2ord 1995 9 25"
  proof -
    from len have "back_scrape_iterable \<noteq> []" by auto
    then have "hd back_scrape_iterable = back_scrape_iterable ! 0" by (rule hd_conv_nth)
    with nth [of 0] len show ?thesis by simp
  qed
  moreover have "\<forall>i. Suc i < length back_scrape_iterable \<longrightarrow>
         back_scrape_iterable ! Suc i = back_scrape_iterable ! i + 7"
    by (simp add: nth)
  moreover have "\<forall>i j. i < j \<and> j < length back_scrape_iterable \<longrightarrow>
         back_scrape_iterable ! i < back_scrape_iterable ! j"
    by (simp add: nth)
  moreover have "\<forall>d \<in> set back_scrape_iterable. d \<le> ymd2ord 2018 11 13"
  proof
    fix d assume "d \<in> set back_scrape_iterable"
    then obtain i where "i < length back_scrape_iterable" "d = back_scrape_iterable ! i"
      by (auto simp: in_set_conv_nth)
    with nth [of i] len show "d \<le> ymd2ord 2018 11 13" by (simp add: window_ordinals)
  qed
  ultimately show ?thesis using nth len by blast
qed

lemma second_monday: "ymd2ord 1995 10 2 = 728568"
  by (simp add: ymd2ord_def days_before_year_def days_before_month_def is_leap_def)

theorem back_scrape_dates_witness:
  "(1::nat) < length back_scrape_iterable \<and> back_scrape_iterable ! 1 = ymd2ord 1995 10 2
   \<and> back_scrape_iterable ! 1207 = ymd2ord 2018 11 12"
proof -
  have len: "length back_scrape_iterable = 1208"
    and nth: "\<forall>i < length back_scrape_iterable. back_scrape_iterable ! i = ymd2ord 1995 9 25 + 7 * int i"
    using back_scrape_dates by blast+
  have "ymd2ord 2018 11 12 = 737010"
    by (simp add: ymd2ord_def days_before_year_def days_before_month_def is_leap_def)
  with nth [rule_format, of 1] nth [rule_format, of 1207] len show ?thesis
    by (simp add: window_ordinals second_monday)
qed

section \<open>Downloading backwards\<close>

lemma download_backwards_fetches:
  "fetched (snd (download_backwards session d s)) = fetched s @ [(d - 7, d)]"
  by (cases "session (d - 7, d)") (simp_all add: download_backwards_def download_def Let_def)

lemma download_backwards_page:
  assumes "session (d - 7, d) = Inr (Some page)"
  shows "download_backwards session d s =
           (None, s\<lparr>backwards_days := 7, case_date := d, html := Some page, status := Some 200,
                     fetched := fetched s @ [(d - 7, d)]\<rparr>)"
  using assms by (simp add: download_backwards_def download_def Let_def)

text \<open>
  C9, as the code has it: \<open>_download_backwards\<close> itself looks at no completion state, and
  every invocation sends one more request for the seven days up to its date. What the status
  prevents is the download in the parse step that follows: after an invocation that got a
  page the status is 200, and the parse step then sends no request and leaves the object as
  it is.
\<close>

theorem download_backwards_then_parse:
  assumes "session (d - 7, d) = Inr (Some page)"
  shows "fst (download_backwards session d s) = None
    \<and> status (snd (download_backwards session d s)) = Some 200
    \<and> html (snd (download_backwards session d s)) = Some page
    \<and> fetched (snd (download_backwards session d s)) = fetched s @ [(d - 7, d)]
    \<and> parse_download_step session (snd (download_backwards session d s)) =
        (None, snd (download_backwards session d s))
    \<and> fetched (snd (download_backwards session d (snd (download_backwards session d s)))) =
        fetched s @ [(d - 7, d), (d - 7, d)]"
  using assms
  by (simp add: download_backwards_page [of session d page] parse_download_step_def)

theorem download_backwards_then_parse_witness:
  "status (snd (download_backwards sample_session 728561 (new_site 737011))) = Some 200
   \<and> parse_download_step sample_session (snd (download_backwards sample_session 728561 (new_site 737011))) =
       (None, snd (download_backwards sample_session 728561 (new_site 737011)))
   \<and> fetched (snd (download_backwards sample_session 728561 (new_site 737011))) = [(728554, 728561)]"
proof -
  have "sample_session (728561 - 7, 728561) =
          Inr (Some (Element ''html'' Map.empty [Text ''results'']))"
    by (simp add: sample_session_def)
  from download_backwards_then_parse [of sample_session 728561 _ "new_site 737011", OF this]
  show ?thesis by (simp add: new_site_def)
qed

theorem download_backwards_twice_counterexample:
  "status (snd (download_backwards sample_session 728561 (new_site 737011))) = Some 200
   \<and> fetched (snd (download_backwards sample_session 728561 (new_site 737011))) = [(728554, 728561)]
   \<and> fetched (snd (download_backwards sample_session 728561
        (snd (download_backwards sample_session 728561 (new_site 737011))))) =
       [(728554, 728561), (728554, 728561)]"
  by (simp add: download_backwards_def download_def sample_session_def new_site_def Let_def)

end
